theory Spec2Isabelle
  imports Main "HOL-Library.Word" "HOL-Library.Sublist"
begin

section \<open>Strings of UTF-16 code units\<close>

text \<open>
  A JavaScript string is a finite sequence of 16-bit code units. Every character the
  program names (U+FEFF, U+200B, the Thai letters of the chapter token) lies in the basic
  plane, so it is one code unit.
\<close>

type_synonym cu = "16 word"

text \<open>An ASCII literal, written as an Isabelle string, as code units.\<close>

definition str :: "string \<Rightarrow> cu list" where
  "str s = map of_char s"

text \<open>ECMAScript \<open>LineTerminator\<close>: LF, CR, LS, PS.\<close>

definition isLineTerminator :: "cu \<Rightarrow> bool" where
  "isLineTerminator c = (c = 0x000A \<or> c = 0x000D \<or> c = 0x2028 \<or> c = 0x2029)"

text \<open>
  ECMAScript \<open>WhiteSpace\<close>: TAB, VT, FF, ZWNBSP and the space separators (category Zs).
\<close>

definition isWhiteSpace :: "cu \<Rightarrow> bool" where
  "isWhiteSpace c =
     (c = 0x0009 \<or> c = 0x000B \<or> c = 0x000C \<or> c = 0x0020 \<or> c = 0x00A0 \<or> c = 0x1680
      \<or> (0x2000 \<le> c \<and> c \<le> 0x200A) \<or> c = 0x202F \<or> c = 0x205F \<or> c = 0x3000
      \<or> c = 0xFEFF)"

text \<open>
  The class \<open>\s\<close> of a regular expression, which is also what \<open>String.prototype.trim\<close>
  strips: white space and line terminators.
\<close>

definition isSpace :: "cu \<Rightarrow> bool" where
  "isSpace c = (isWhiteSpace c \<or> isLineTerminator c)"

section \<open>Regular expressions, as ECMAScript matches them\<close>

text \<open>
  The fragment of the pattern language the program uses. \<open>Rep n r\<close> is the greedy
  quantifier \<open>r{n,}\<close>, so \<open>r*\<close> is \<open>Rep 0 r\<close> and \<open>r+\<close> is \<open>Rep 1 r\<close>.
\<close>

datatype atom =
    Lit cu            \<comment> \<open>a pattern character\<close>
  | OneOf "cu list"   \<comment> \<open>a class \<open>[...]\<close> of single characters\<close>
  | NoneOf "cu list"  \<comment> \<open>a negated class \<open>[^...]\<close>\<close>
  | WhiteSp           \<comment> \<open>the escape \<open>\s\<close>\<close>

datatype regex =
    Eps
  | Atom atom
  | Bol               \<comment> \<open>\<open>^\<close>\<close>
  | Eol               \<comment> \<open>\<open>$\<close>\<close>
  | Seq regex regex
  | Alt regex regex
  | Rep nat regex

record flags =
  ignoreCase :: bool
  multiline :: bool

text \<open>
  \<open>Canonicalize\<close> of a non-unicode pattern under the \<open>i\<close> flag upper-cases one code
  unit. On ASCII that maps \<open>a..z\<close> to \<open>A..Z\<close>. A code unit from 128 on is never mapped to
  an ASCII one (the standard's own guard), and every character of this program's patterns
  is ASCII, so such a code unit is left as it is here.
\<close>

definition canonicalize :: "bool \<Rightarrow> cu \<Rightarrow> cu" where
  "canonicalize ic c = (if ic \<and> 0x61 \<le> c \<and> c \<le> 0x7A then c - 0x20 else c)"

fun atomMatches :: "bool \<Rightarrow> atom \<Rightarrow> cu \<Rightarrow> bool" where
  "atomMatches ic (Lit a) c = (canonicalize ic c = canonicalize ic a)"
| "atomMatches ic (OneOf as) c = (canonicalize ic c \<in> set (map (canonicalize ic) as))"
| "atomMatches ic (NoneOf as) c = (canonicalize ic c \<notin> set (map (canonicalize ic) as))"
| "atomMatches ic WhiteSp c = isSpace (canonicalize ic c)"

text \<open>
  A position in the input: the code unit just before it (\<open>None\<close> at index 0) and the
  input from it on.
\<close>

type_synonym pos = "cu option \<times> cu list"

text \<open>
  The backtracking matcher (\<open>weight\<close> only measures a pattern, for the termination
  proof). \<open>rmatch fl r st\<close> lists the positions at which a match of \<open>r\<close> begun at
  \<open>st\<close> can end, in the order in which ECMAScript's matcher tries them; the
  match it reports is the first. A greedy quantifier tries one more iteration before it
  tries to stop, and once its minimum is reached it rejects an iteration that consumed
  nothing: one whose end is the position it began at. A match only moves forward
  (\<open>rmatch_suffix\<close> below), so that is the iteration whose rest is not shorter.
\<close>

fun weight :: "regex \<Rightarrow> nat" where
  "weight (Seq r1 r2) = Suc (weight r1 + weight r2)"
| "weight (Alt r1 r2) = Suc (weight r1 + weight r2)"
| "weight (Rep n r) = Suc (n + weight r)"
| "weight _ = 0"

function rmatch :: "flags \<Rightarrow> regex \<Rightarrow> pos \<Rightarrow> pos list" where
  "rmatch fl Eps st = [st]"
| "rmatch fl (Atom a) (p, []) = []"
| "rmatch fl (Atom a) (p, c # cs) =
     (if atomMatches (ignoreCase fl) a c then [(Some c, cs)] else [])"
| "rmatch fl Bol (p, cs) =
     (case p of
        None \<Rightarrow> [(p, cs)]
      | Some c \<Rightarrow> if multiline fl \<and> isLineTerminator c then [(p, cs)] else [])"
| "rmatch fl Eol (p, cs) =
     (case cs of
        [] \<Rightarrow> [(p, cs)]
      | c # _ \<Rightarrow> if multiline fl \<and> isLineTerminator c then [(p, cs)] else [])"
| "rmatch fl (Seq r1 r2) st = concat (map (rmatch fl r2) (rmatch fl r1 st))"
| "rmatch fl (Alt r1 r2) st = rmatch fl r1 st @ rmatch fl r2 st"
| "rmatch fl (Rep (Suc n) r) st = concat (map (rmatch fl (Rep n r)) (rmatch fl r st))"
| "rmatch fl (Rep 0 r) st =
     concat (map (\<lambda>st'. if length (snd st') < length (snd st)
                         then rmatch fl (Rep 0 r) st' else [])
                 (rmatch fl r st))
     @ [st]"
  by pat_completeness auto
termination
  by (relation "measures [\<lambda>(fl, r, st). weight r, \<lambda>(fl, r, st). length (snd st)]") auto

text \<open>A sequence of terms, and a run of pattern characters.\<close>

definition seqs :: "regex list \<Rightarrow> regex" where
  "seqs rs = foldr Seq rs Eps"

definition lits :: "cu list \<Rightarrow> regex" where
  "lits cs = seqs (map (\<lambda>c. Atom (Lit c)) cs)"

text \<open>
  \<open>RegExpBuiltinExec\<close> of a pattern that is not sticky: the leftmost index from the
  current one at which the pattern matches. The result is the text skipped, the text
  matched and the position after the match.
\<close>

fun rexec :: "flags \<Rightarrow> regex \<Rightarrow> cu option \<Rightarrow> cu list \<Rightarrow> (cu list \<times> cu list \<times> pos) option" where
  "rexec fl r p [] =
     (case rmatch fl r (p, []) of
        [] \<Rightarrow> None
      | e # _ \<Rightarrow> Some ([], [], e))"
| "rexec fl r p (c # cs) =
     (case rmatch fl r (p, c # cs) of
        [] \<Rightarrow> map_option (\<lambda>(skipped, m, e). (c # skipped, m, e)) (rexec fl r (Some c) cs)
      | e # _ \<Rightarrow> Some ([], take (length (c # cs) - length (snd e)) (c # cs), e))"

text \<open>A match never ends before the position it began at.\<close>

lemma rep0_set:
  "e \<in> set (rmatch fl (Rep 0 r) st) \<longleftrightarrow>
     e = st \<or> (\<exists>m \<in> set (rmatch fl r st). length (snd m) < length (snd st) \<and> e \<in> set (rmatch fl (Rep 0 r) m))"
  by (subst rmatch.simps(9)) (auto split: if_splits simp del: rmatch.simps(9))

lemma rmatch_suffix: "e \<in> set (rmatch fl r st) \<Longrightarrow> suffix (snd e) (snd st)"
proof (induction fl r st arbitrary: e rule: rmatch.induct)
  case (1 fl st)
  then show ?case by simp
next
  case (2 fl a p)
  then show ?case by simp
next
  case (3 fl a p c cs)
  then show ?case by (auto split: if_splits simp: suffix_Cons)
next
  case (4 fl p cs)
  then show ?case by (auto split: if_splits option.splits)
next
  case (5 fl p cs)
  then show ?case by (auto split: if_splits list.splits)
next
  case (6 fl r1 r2 st)
  then obtain m where m: "m \<in> set (rmatch fl r1 st)" "e \<in> set (rmatch fl r2 m)"
    by auto
  from "6.IH"(1)[OF m(1)] "6.IH"(2)[OF m] show ?case
    by (rule suffix_order.trans[rotated])
next
  case (7 fl r1 r2 st)
  then show ?case by (cases e) auto
next
  case (8 fl n r st)
  then obtain m where m: "m \<in> set (rmatch fl r st)" "e \<in> set (rmatch fl (Rep n r) m)"
    by auto
  from "8.IH"(1)[OF m(1)] "8.IH"(2)[OF m] show ?case
    by (rule suffix_order.trans[rotated])
next
  case (9 fl r st)
  show ?case
  proof (cases "e = st")
    case True
    then show ?thesis by simp
  next
    case False
    with "9.prems" obtain m where m: "m \<in> set (rmatch fl r st)"
      "length (snd m) < length (snd st)" "e \<in> set (rmatch fl (Rep 0 r) m)"
      unfolding rep0_set[of e fl r st] by blast
    from "9.IH"(1)[OF m(1)] "9.IH"(2)[OF m] show ?thesis
      by (rule suffix_order.trans[rotated])
  qed
qed

lemma rmatch_length: "e \<in> set (rmatch fl r st) \<Longrightarrow> length (snd e) \<le> length (snd st)"
  by (rule suffix_length_le) (rule rmatch_suffix)

lemma rexec_parts:
  "rexec fl r p cs = Some (skipped, m, e) \<Longrightarrow> cs = skipped @ m @ snd e"
proof (induction cs arbitrary: p skipped)
  case Nil
  then show ?case
    using rmatch_suffix[of e fl r "(p, [])"] by (auto split: list.splits)
next
  case (Cons c cs)
  show ?case
  proof (cases "rmatch fl r (p, c # cs)")
    case Nil
    with Cons.prems obtain sk where "rexec fl r (Some c) cs = Some (sk, m, e)" "skipped = c # sk"
      by auto
    with Cons.IH show ?thesis by auto
  next
    case (Cons e' es)
    with Cons.prems have e: "e' = e" "skipped = []"
      "m = take (length (c # cs) - length (snd e)) (c # cs)"
      by auto
    have "suffix (snd e) (c # cs)"
      using rmatch_suffix[of e fl r "(p, c # cs)"] Cons e by simp
    then obtain ys where ys: "c # cs = ys @ snd e"
      by (auto simp: suffix_def)
    have "take (length (c # cs) - length (snd e)) (c # cs) = ys"
      by (subst (1 2) ys) simp
    with e ys show ?thesis by simp
  qed
qed

text \<open>
  \<open>String.prototype.replace\<close> with a global pattern: every match, found from where the
  last one ended, is replaced by \<open>f\<close> of the matched text. After an empty match the
  search moves on by one code unit, which is copied to the output.
\<close>

function replaceAll :: "flags \<Rightarrow> regex \<Rightarrow> (cu list \<Rightarrow> cu list) \<Rightarrow> cu option \<Rightarrow> cu list \<Rightarrow> cu list" where
  "replaceAll fl r f p cs =
     (case rexec fl r p cs of
        None \<Rightarrow> cs
      | Some (skipped, m, (q, rest)) \<Rightarrow>
          skipped @ f m @
          (if m \<noteq> [] then replaceAll fl r f q rest
           else (case rest of
                   [] \<Rightarrow> []
                 | c # rest' \<Rightarrow> c # replaceAll fl r f (Some c) rest')))"
  by pat_completeness auto
termination
proof (relation "measure (\<lambda>(fl, r, f, p, cs). length cs)", goal_cases)
  case 1
  show ?case by simp
next
  case (2 fl r f p cs x2 skipped y m z q rest)
  then have "rexec fl r p cs = Some (skipped, m, (q, rest))" by simp
  from rexec_parts[OF this] 2(5) show ?case by simp
next
  case (3 fl r f p cs x2 skipped y m z q rest c rest')
  then have "rexec fl r p cs = Some (skipped, m, (q, rest))" by simp
  from rexec_parts[OF this] 3(6) show ?case by simp
qed

text \<open>
  \<open>String.prototype.split\<close> with a pattern that has no capturing group and no limit.
  \<open>seg\<close> is the text since the end of the last separator, \<open>cs\<close> the input from the
  index \<open>q\<close> under trial. The pattern is tried at \<open>q\<close> only (a sticky match); a match
  that ends where the segment began is skipped. The empty string is a case of its own:
  it gives no segment if the pattern matches it, and the one segment \<open>[]\<close> otherwise.
\<close>

function splitLoop :: "flags \<Rightarrow> regex \<Rightarrow> cu list \<Rightarrow> cu option \<Rightarrow> cu list \<Rightarrow> cu list list" where
  "splitLoop fl r seg p [] = [seg]"
| "splitLoop fl r seg p (c # cs) =
     (case rmatch fl r (p, c # cs) of
        [] \<Rightarrow> splitLoop fl r (seg @ [c]) (Some c) cs
      | (q, rest) # _ \<Rightarrow>
          if seg = [] \<and> length rest = length (c # cs)
          then splitLoop fl r (seg @ [c]) (Some c) cs
          else seg # splitLoop fl r [] q rest)"
  by pat_completeness auto
termination
proof (relation "measures [\<lambda>(fl, r, seg, p, cs). length cs,
                           \<lambda>(fl, r, seg, p, cs). if seg = [] then 0 else 1]", goal_cases)
  case 1
  show ?case by simp
next
  case (2 fl r seg p c cs)
  show ?case by simp
next
  case (3 fl r seg p c cs e es q rest)
  show ?case by simp
next
  case (4 fl r seg p c cs e es q rest)
  then have "(q, rest) \<in> set (rmatch fl r (p, c # cs))" by simp
  from rmatch_length[OF this] have "length rest \<le> length (c # cs)" by simp
  with 4 show ?case by auto
qed

definition split :: "flags \<Rightarrow> regex \<Rightarrow> cu list \<Rightarrow> cu list list" where
  "split fl r cs =
     (if cs = [] then (if rmatch fl r (None, []) = [] then [[]] else [])
      else splitLoop fl r [] None cs)"

text \<open>\<open>String.prototype.trim\<close>.\<close>

definition trim :: "cu list \<Rightarrow> cu list" where
  "trim cs = rev (dropWhile isSpace (rev (dropWhile isSpace cs)))"

section \<open>The program\<close>

text \<open>The flag sets of the program's patterns: \<open>g\<close>, \<open>gm\<close> and \<open>gi\<close>.\<close>

definition flagsG :: flags where
  "flagsG = \<lparr>ignoreCase = False, multiline = False\<rparr>"

definition flagsGM :: flags where
  "flagsGM = \<lparr>ignoreCase = False, multiline = True\<rparr>"

definition flagsGI :: flags where
  "flagsGI = \<lparr>ignoreCase = True, multiline = False\<rparr>"

subsection \<open>normalizeMarkdown\<close>

text \<open>\<^verbatim>\<open>/\uFEFF|\u200B/g\<close>\<close>

definition marksRe :: regex where
  "marksRe = Alt (Atom (Lit 0xFEFF)) (Atom (Lit 0x200B))"

text \<open>\<^verbatim>\<open>/^[ \t]*[-*_]{3,}[ \t]*$/gm\<close>\<close>

definition ruleRe :: regex where
  "ruleRe = seqs [Bol, Rep 0 (Atom (OneOf [0x20, 0x09])), Rep 3 (Atom (OneOf (str ''-*_''))),
                  Rep 0 (Atom (OneOf [0x20, 0x09])), Eol]"

text \<open>
  The chapter token: \<open>**\<close> and the six code units U+0E15 U+0E2D U+0E19 U+0E17 U+0E35
  U+0E48 of the Thai word. The pattern is a newline and then the token in a group.
\<close>

definition chapterToken :: "cu list" where
  "chapterToken = str ''**'' @ [0x0E15, 0x0E2D, 0x0E19, 0x0E17, 0x0E35, 0x0E48]"

definition chapterRe :: regex where
  "chapterRe = Seq (Atom (Lit 0x0A)) (lits chapterToken)"

text \<open>
  The replacement \<^verbatim>\<open>'\n\n$1'\<close>. The group encloses all of the pattern after its first
  character, so \<open>$1\<close> is the matched text without its first code unit.
\<close>

definition chapterRepl :: "cu list \<Rightarrow> cu list" where
  "chapterRepl m = [0x0A, 0x0A] @ drop 1 m"

definition normalizeMarkdown :: "cu list \<Rightarrow> cu list" where
  "normalizeMarkdown source =
     replaceAll flagsG chapterRe chapterRepl None
       (replaceAll flagsGM ruleRe (\<lambda>_. []) None
         (replaceAll flagsG marksRe (\<lambda>_. []) None source))"

subsection \<open>splitIntoPages\<close>

text \<open>
  \<^verbatim>\<open>/<div\s+[^>]*style=['"][^'"]*page-break-after:\s*always[^'"]*['"][^>]*><\/div>/gi\<close>
\<close>

definition pageBreakRe :: regex where
  "pageBreakRe =
     seqs [lits (str ''<div''), Rep 1 (Atom WhiteSp), Rep 0 (Atom (NoneOf (str ''>''))),
           lits (str ''style=''), Atom (OneOf [0x27, 0x22]), Rep 0 (Atom (NoneOf [0x27, 0x22])),
           lits (str ''page-break-after:''), Rep 0 (Atom WhiteSp), lits (str ''always''),
           Rep 0 (Atom (NoneOf [0x27, 0x22])), Atom (OneOf [0x27, 0x22]),
           Rep 0 (Atom (NoneOf (str ''>''))), lits (str ''></div>'')]"

text \<open>\<^verbatim>\<open>/\s+/g\<close> and \<^verbatim>\<open>/&nbsp;/g\<close>\<close>

definition spacesRe :: regex where
  "spacesRe = Rep 1 (Atom WhiteSp)"

definition nbspRe :: regex where
  "nbspRe = lits (str ''&nbsp;'')"

definition stripped :: "cu list \<Rightarrow> cu list" where
  "stripped page =
     replaceAll flagsG nbspRe (\<lambda>_. []) None (replaceAll flagsG spacesRe (\<lambda>_. []) None page)"

definition splitIntoPages :: "cu list \<Rightarrow> cu list list" where
  "splitIntoPages source =
     filter (\<lambda>page. length (stripped page) > 0) (map trim (split flagsGI pageBreakRe source))"

text \<open>The pipeline of \<open>App\<close>: normalise, then split.\<close>

definition pages :: "cu list \<Rightarrow> cu list list" where
  "pages markdown = splitIntoPages (normalizeMarkdown markdown)"

section \<open>Auxiliary notions\<close>

text \<open>
  The code unit before the position reached by reading \<open>cs\<close> from a position whose
  previous code unit is \<open>p\<close>.
\<close>

fun after :: "cu option \<Rightarrow> cu list \<Rightarrow> cu option" where
  "after p [] = p"
| "after p (c # cs) = after (Some c) cs"

text \<open>A pattern rejects a code unit when it matches nowhere that begins with it.\<close>

definition rejects :: "flags \<Rightarrow> regex \<Rightarrow> cu \<Rightarrow> bool" where
  "rejects fl r c = (\<forall>p cs. rmatch fl r (p, c # cs) = [])"

subsection \<open>Lines and rule lines\<close>

text \<open>The two classes of the rule pattern, \<open>[ \t]\<close> and \<open>[-*_]\<close>.\<close>

definition isBlank :: "cu \<Rightarrow> bool" where
  "isBlank c = (c = 0x20 \<or> c = 0x09)"

definition isDash :: "cu \<Rightarrow> bool" where
  "isDash c = (c = 0x2D \<or> c = 0x2A \<or> c = 0x5F)"

text \<open>
  Where \<open>^\<close> holds under the \<open>m\<close> flag: at index 0 and just after a line terminator.
\<close>

definition atStart :: "cu option \<Rightarrow> bool" where
  "atStart p = (case p of None \<Rightarrow> True | Some c \<Rightarrow> isLineTerminator c)"

text \<open>
  A line, that is a string without line terminator, which the rule pattern matches as a
  whole: blanks, then three or more code units of \<open>[-*_]\<close>, then blanks.
\<close>

definition isRuleLine :: "cu list \<Rightarrow> bool" where
  "isRuleLine l =
     (3 \<le> length (takeWhile isDash (dropWhile isBlank l))
      \<and> dropWhile isBlank (dropWhile isDash (dropWhile isBlank l)) = [])"

text \<open>The second \<open>replace\<close> of \<open>normalizeMarkdown\<close>, and what it leaves of a line.\<close>

abbreviation stripRules :: "cu option \<Rightarrow> cu list \<Rightarrow> cu list" where
  "stripRules p cs \<equiv> replaceAll flagsGM ruleRe (\<lambda>_. []) p cs"

definition keepLine :: "cu list \<Rightarrow> cu list" where
  "keepLine l = (if isRuleLine l then [] else l)"

subsection \<open>Markers\<close>


text \<open>
  A string \<open>m\<close> is a marker in front of \<open>rest\<close> when the pattern, tried at the start of
  \<open>m @ rest\<close>, reports a match that is exactly \<open>m\<close>.
\<close>

definition matchesMarker :: "cu list \<Rightarrow> cu list \<Rightarrow> bool" where
  "matchesMarker m rest =
     (case rmatch flagsGI pageBreakRe (None, m @ rest) of
        [] \<Rightarrow> False
      | e # _ \<Rightarrow> snd e = rest)"

text \<open>
  The wording of the specification, "consists only of whitespace and literal \<open>&nbsp;\<close>
  entities", as a predicate of its own: the string is a sequence of white-space code units
  and of the six code units \<open>&nbsp;\<close>.
\<close>

function onlySpaceAndNbsp :: "cu list \<Rightarrow> bool" where
  "onlySpaceAndNbsp [] = True"
| "onlySpaceAndNbsp (c # cs) =
     (if isSpace c then onlySpaceAndNbsp cs
      else prefix (str ''&nbsp;'') (c # cs) \<and> onlySpaceAndNbsp (drop 6 (c # cs)))"
  by pat_completeness auto
termination
  by (relation "measure length") auto

text \<open>
  A family of the markers the specification describes: an empty \<open>div\<close> whose \<open>style\<close>
  attribute, between the quotes \<open>q1\<close> and \<open>q2\<close>, is \<open>page-break-after:\<close>, then \<open>w\<close>, then
  \<open>always\<close>, then \<open>d\<close>. In a well-formed one the quotes are quotes, \<open>w\<close> is white space
  and \<open>d\<close> is made of semicolons and white space.
\<close>

definition markerText :: "cu \<Rightarrow> cu list \<Rightarrow> cu list \<Rightarrow> cu \<Rightarrow> cu list" where
  "markerText q1 w d q2 =
     str ''<div style='' @ [q1] @ str ''page-break-after:'' @ w @ str ''always'' @ d @ [q2]
     @ str ''></div>''"

definition isQuote :: "cu \<Rightarrow> bool" where
  "isQuote c = (c = 0x22 \<or> c = 0x27)"

definition isFill :: "cu \<Rightarrow> bool" where
  "isFill c = (c = 0x3B \<or> isSpace c)"

definition markerOk :: "cu \<Rightarrow> cu list \<Rightarrow> cu list \<Rightarrow> cu \<Rightarrow> bool" where
  "markerOk q1 w d q2 = (isQuote q1 \<and> isQuote q2 \<and> list_all isSpace w \<and> list_all isFill d)"

section \<open>How the replacement loop runs\<close>

declare replaceAll.simps [simp del]
declare rmatch.simps(9) [simp del]

lemma replaceAll_Nil:
  "replaceAll fl r f p [] = (case rmatch fl r (p, []) of [] \<Rightarrow> [] | e # es \<Rightarrow> f [])"
proof (cases "rmatch fl r (p, [])")
  case Nil
  then show ?thesis by (subst replaceAll.simps) simp
next
  case (Cons e es)
  then have "suffix (snd e) []"
    using rmatch_suffix[of e fl r "(p, [])"] by simp
  with Cons show ?thesis
    by (subst replaceAll.simps) (cases e, simp)
qed

lemma replaceAll_skip:
  assumes "rmatch fl r (p, c # cs) = []"
  shows "replaceAll fl r f p (c # cs) = c # replaceAll fl r f (Some c) cs"
  using assms
  by (subst (1 2) replaceAll.simps) (auto split: option.splits)

lemma replaceAll_hit:
  assumes "rmatch fl r (p, cs) = (q, rest) # es" and "length rest < length cs"
  shows "replaceAll fl r f p cs = f (take (length cs - length rest) cs) @ replaceAll fl r f q rest"
proof (cases cs)
  case Nil
  with assms show ?thesis by simp
next
  case (Cons c cs')
  with assms show ?thesis
    by (subst replaceAll.simps) auto
qed

lemma replaceAll_none:
  "rexec fl r p cs = None \<Longrightarrow> replaceAll fl r f p cs = cs"
  by (subst replaceAll.simps) simp

lemma replaceAll_unfold:
  "rexec fl r p cs = Some (skipped, m, (q, rest)) \<Longrightarrow>
   replaceAll fl r f p cs =
     skipped @ f m @
       (if m \<noteq> [] then replaceAll fl r f q rest
        else (case rest of [] \<Rightarrow> [] | c # rest' \<Rightarrow> c # replaceAll fl r f (Some c) rest'))"
  by (subst replaceAll.simps) simp

lemma replaceAll_set:
  "(\<And>m. set (f m) \<subseteq> A \<union> set m) \<Longrightarrow> set (replaceAll fl r f p cs) \<subseteq> A \<union> set cs"
proof (induction fl r f p cs rule: replaceAll.induct)
  case (1 fl r f p cs)
  show ?case
  proof (cases "rexec fl r p cs")
    case None
    then show ?thesis by (simp add: replaceAll_none)
  next
    case (Some x)
    then obtain skipped m q rest where x: "rexec fl r p cs = Some (skipped, m, (q, rest))"
      by (cases x) auto
    from rexec_parts[OF x] have cs: "cs = skipped @ m @ rest" by simp
    then have sub: "set skipped \<subseteq> set cs" "set m \<subseteq> set cs" "set rest \<subseteq> set cs"
      by auto
    then have fm: "set (f m) \<subseteq> A \<union> set cs" using "1.prems"[of m] by auto
    note eq = replaceAll_unfold[OF x, of f]
    show ?thesis
    proof (cases "m = []")
      case False
      from "1.IH"(1)[OF x refl refl refl False "1.prems"] sub fm show ?thesis
        unfolding eq using False by auto
    next
      case True
      show ?thesis
      proof (cases rest)
        case Nil
        with sub fm True show ?thesis
          unfolding eq by auto
      next
        case (Cons c rest')
        from "1.IH"(2)[OF x refl refl refl _ Cons "1.prems"] True sub fm Cons show ?thesis
          unfolding eq by auto
      qed
    qed
  qed
qed

section \<open>Greedy runs of one atom\<close>

lemma after_append [simp]: "after p (xs @ ys) = after (after p xs) ys"
  by (induction xs arbitrary: p) auto

lemma star_atom_Nil [simp]: "rmatch fl (Rep 0 (Atom a)) (p, []) = [(p, [])]"
  by (simp add: rmatch.simps(9))

lemma star_atom_Cons [simp]:
  "rmatch fl (Rep 0 (Atom a)) (p, c # cs) =
     (if atomMatches (ignoreCase fl) a c then rmatch fl (Rep 0 (Atom a)) (Some c, cs) else [])
     @ [(p, c # cs)]"
  by (simp add: rmatch.simps(9))

lemma seq_star_Nil: "rmatch fl (Seq (Rep 0 (Atom a)) r) (p, []) = rmatch fl r (p, [])"
  by simp

lemma seq_star_Cons:
  "rmatch fl (Seq (Rep 0 (Atom a)) r) (p, c # cs) =
     (if atomMatches (ignoreCase fl) a c then rmatch fl (Seq (Rep 0 (Atom a)) r) (Some c, cs) else [])
     @ rmatch fl r (p, c # cs)"
  by simp

lemma seq_star_run:
  assumes "\<forall>c \<in> set w. atomMatches (ignoreCase fl) a c \<and> rejects fl r c"
  shows "rmatch fl (Seq (Rep 0 (Atom a)) r) (p, w @ tail)
         = rmatch fl (Seq (Rep 0 (Atom a)) r) (after p w, tail)"
  using assms
proof (induction w arbitrary: p)
  case Nil
  then show ?case by simp
next
  case (Cons c w)
  then have "rmatch fl r (p, c # w @ tail) = []"
    by (simp add: rejects_def)
  with Cons show ?case
    by (simp del: rmatch.simps add: seq_star_Cons)
qed

lemma seq_star_stop:
  assumes "tail = [] \<or> \<not> atomMatches (ignoreCase fl) a (hd tail)"
  shows "rmatch fl (Seq (Rep 0 (Atom a)) r) (p, tail) = rmatch fl r (p, tail)"
  using assms by (cases tail) auto

lemma star_atom_hd:
  "\<exists>es. rmatch fl (Rep 0 (Atom a)) (p, cs)
        = (after p (takeWhile (atomMatches (ignoreCase fl) a) cs),
           dropWhile (atomMatches (ignoreCase fl) a) cs) # es"
proof (induction cs arbitrary: p)
  case Nil
  then show ?case by simp
next
  case (Cons c cs)
  from Cons[of "Some c"] show ?case by auto
qed

lemma canonicalize_False [simp]: "canonicalize False c = c"
  by (simp add: canonicalize_def)

lemma atomMatches_WhiteSp_False [simp]: "atomMatches False WhiteSp = isSpace"
  by (rule ext) simp

lemma filter_dropWhile_not: "filter (\<lambda>c. \<not> P c) (dropWhile P xs) = filter (\<lambda>c. \<not> P c) xs"
  by (induction xs) auto

lemma spaces_filter:
  "replaceAll flagsG spacesRe (\<lambda>_. []) p cs = filter (\<lambda>c. \<not> isSpace c) cs"
proof (induction cs arbitrary: p rule: length_induct)
  case (1 cs)
  show ?case
  proof (cases cs)
    case Nil
    then show ?thesis
      by (simp add: replaceAll_Nil spacesRe_def)
  next
    case (Cons c cs')
    show ?thesis
    proof (cases "isSpace c")
      case False
      then have "rmatch flagsG spacesRe (p, c # cs') = []"
        by (simp add: spacesRe_def flagsG_def)
      from replaceAll_skip[OF this] 1 Cons False show ?thesis by simp
    next
      case True
      obtain es where es: "rmatch flagsG (Rep 0 (Atom WhiteSp)) (Some c, cs')
          = (after (Some c) (takeWhile isSpace cs'), dropWhile isSpace cs') # es"
        using star_atom_hd[of flagsG WhiteSp "Some c" cs'] by (auto simp: flagsG_def)
      with True have m: "rmatch flagsG spacesRe (p, cs)
          = (after (Some c) (takeWhile isSpace cs'), dropWhile isSpace cs') # es"
        by (simp add: spacesRe_def flagsG_def Cons)
      have len: "length (dropWhile isSpace cs') < length cs"
        using length_dropWhile_le[of isSpace cs'] Cons by simp
      from replaceAll_hit[OF m len] 1 len True Cons show ?thesis
        by (simp add: filter_dropWhile_not)
    qed
  qed
qed

lemma marks_filter:
  "replaceAll flagsG marksRe (\<lambda>_. []) p cs = filter (\<lambda>c. c \<noteq> 0xFEFF \<and> c \<noteq> 0x200B) cs"
proof (induction cs arbitrary: p)
  case Nil
  then show ?case by (simp add: replaceAll_Nil marksRe_def)
next
  case (Cons c cs)
  show ?case
  proof (cases "c = 0xFEFF \<or> c = 0x200B")
    case False
    then have "rmatch flagsG marksRe (p, c # cs) = []"
      by (simp add: marksRe_def flagsG_def)
    from replaceAll_skip[OF this] Cons False show ?thesis by simp
  next
    case True
    then obtain es where "rmatch flagsG marksRe (p, c # cs) = (Some c, cs) # es"
      by (auto simp: marksRe_def flagsG_def)
    from replaceAll_hit[OF this] Cons True show ?thesis by auto
  qed
qed

lemma trim_filter: "filter (\<lambda>c. \<not> isSpace c) (trim cs) = filter (\<lambda>c. \<not> isSpace c) cs"
proof -
  have "filter (\<lambda>c. \<not> isSpace c) (trim cs)
      = rev (filter (\<lambda>c. \<not> isSpace c) (dropWhile isSpace (rev (dropWhile isSpace cs))))"
    by (simp add: trim_def rev_filter)
  also have "\<dots> = rev (filter (\<lambda>c. \<not> isSpace c) (rev (dropWhile isSpace cs)))"
    by (simp only: filter_dropWhile_not)
  also have "\<dots> = filter (\<lambda>c. \<not> isSpace c) cs"
    by (simp add: rev_filter[symmetric] filter_dropWhile_not)
  finally show ?thesis .
qed

lemma chapterRepl_set: "set (chapterRepl m) \<subseteq> {0x0A} \<union> set m"
  using set_drop_subset[of 1 m] by (auto simp: chapterRepl_def)

section \<open>The chapter rule\<close>

lemma seqs_Nil [simp]: "seqs [] = Eps"
  by (simp add: seqs_def)

lemma seqs_Cons [simp]: "seqs (r # rs) = Seq r (seqs rs)"
  by (simp add: seqs_def)

lemma lits_Nil [simp]: "lits [] = Eps"
  by (simp add: lits_def)

lemma lits_Cons [simp]: "lits (c # cs) = Seq (Atom (Lit c)) (lits cs)"
  by (simp add: lits_def)

lemma rmatch_lits:
  "\<not> ignoreCase fl \<Longrightarrow>
   rmatch fl (lits xs) (p, cs) = (if prefix xs cs then [(after p xs, drop (length xs) cs)] else [])"
proof (induction xs arbitrary: p cs)
  case Nil
  then show ?case by simp
next
  case (Cons x xs)
  then show ?case by (cases cs) auto
qed

lemma rmatch_chapterRe:
  "rmatch flagsG chapterRe (p, cs) =
     (if prefix (0x0A # chapterToken) cs
      then [(after p (0x0A # chapterToken), drop (length (0x0A # chapterToken)) cs)] else [])"
  using rmatch_lits[of flagsG "0x0A # chapterToken" p cs]
  by (simp add: chapterRe_def flagsG_def del: rmatch.simps)

lemma chapter_Nil [simp]: "replaceAll flagsG chapterRe chapterRepl p [] = []"
  by (simp add: replaceAll_Nil rmatch_chapterRe del: rmatch.simps)

lemma chapter_skip:
  "\<not> prefix (0x0A # chapterToken) (c # cs) \<Longrightarrow>
   replaceAll flagsG chapterRe chapterRepl p (c # cs)
     = c # replaceAll flagsG chapterRe chapterRepl (Some c) cs"
  by (rule replaceAll_skip) (simp add: rmatch_chapterRe)

lemma chapter_hit:
  "replaceAll flagsG chapterRe chapterRepl p ((0x0A # chapterToken) @ rest)
     = 0x0A # (0x0A # chapterToken)
       @ replaceAll flagsG chapterRe chapterRepl (after p (0x0A # chapterToken)) rest"
proof -
  let ?cs = "(0x0A # chapterToken) @ rest"
  have m: "rmatch flagsG chapterRe (p, ?cs) = (after p (0x0A # chapterToken), rest) # []"
    by (simp add: rmatch_chapterRe del: append_Cons after.simps)
  have len: "length rest < length ?cs" by simp
  have "take (length ?cs - length rest) ?cs = 0x0A # chapterToken" by simp
  with replaceAll_hit[OF m len, of chapterRepl] show ?thesis
    by (simp add: chapterRepl_def del: after.simps)
qed

lemma chapter_fixed:
  "\<not> sublist (0x0A # chapterToken) cs \<Longrightarrow> replaceAll flagsG chapterRe chapterRepl p cs = cs"
proof (induction cs arbitrary: p)
  case Nil
  then show ?case by simp
next
  case (Cons c cs)
  then have "\<not> prefix (0x0A # chapterToken) (c # cs)" "\<not> sublist (0x0A # chapterToken) cs"
    by (auto simp: sublist_Cons_right)
  with Cons.IH show ?case by (simp add: chapter_skip)
qed

lemma chapter_length:
  "length cs \<le> length (replaceAll flagsG chapterRe chapterRepl p cs)
   \<and> (sublist (0x0A # chapterToken) cs \<longrightarrow>
        length cs < length (replaceAll flagsG chapterRe chapterRepl p cs))"
proof (induction cs arbitrary: p rule: length_induct)
  case (1 cs)
  show ?case
  proof (cases "prefix (0x0A # chapterToken) cs")
    case True
    then obtain rest where cs: "cs = (0x0A # chapterToken) @ rest"
      by (auto simp: prefix_def)
    then have "length rest < length cs" by simp
    with 1 have "length rest \<le> length (replaceAll flagsG chapterRe chapterRepl
        (after p (0x0A # chapterToken)) rest)"
      by blast
    then show ?thesis
      unfolding cs chapter_hit by simp
  next
    case False
    show ?thesis
    proof (cases cs)
      case Nil
      with False show ?thesis by simp
    next
      case (Cons c cs')
      with 1 have "length cs' \<le> length (replaceAll flagsG chapterRe chapterRepl (Some c) cs')
        \<and> (sublist (0x0A # chapterToken) cs' \<longrightarrow>
            length cs' < length (replaceAll flagsG chapterRe chapterRepl (Some c) cs'))"
        by simp
      with False Cons show ?thesis
        by (auto simp: chapter_skip sublist_Cons_right)
    qed
  qed
qed

lemma chapter_keeps_occurrence:
  "sublist (0x0A # chapterToken) cs \<Longrightarrow>
   sublist (0x0A # chapterToken) (replaceAll flagsG chapterRe chapterRepl p cs)"
proof (induction cs arbitrary: p rule: length_induct)
  case (1 cs)
  show ?case
  proof (cases "prefix (0x0A # chapterToken) cs")
    case True
    then obtain rest where cs: "cs = (0x0A # chapterToken) @ rest"
      by (auto simp: prefix_def)
    have "sublist (0x0A # chapterToken) ([0x0A] @ (0x0A # chapterToken)
        @ replaceAll flagsG chapterRe chapterRepl (after p (0x0A # chapterToken)) rest)"
      unfolding sublist_def by blast
    then show ?thesis
      unfolding cs chapter_hit by simp
  next
    case False
    show ?thesis
    proof (cases cs)
      case Nil
      with "1.prems" show ?thesis by simp
    next
      case (Cons c cs')
      with False "1.prems" have "sublist (0x0A # chapterToken) cs'"
        by (auto simp: sublist_Cons_right)
      with 1 Cons have "sublist (0x0A # chapterToken)
          (replaceAll flagsG chapterRe chapterRepl (Some c) cs')"
        by simp
      with False Cons show ?thesis
        by (simp add: chapter_skip sublist_Cons_right)
    qed
  qed
qed

section \<open>Rule lines\<close>

lemma concat_map_concat_map:
  "concat (map f (concat (map g xs))) = concat (map (\<lambda>x. concat (map f (g x))) xs)"
  by (induction xs) auto

lemma rmatch_Seq_fun:
  "rmatch fl (Seq r1 r2) = (\<lambda>st. concat (map (rmatch fl r2) (rmatch fl r1 st)))"
  by (rule ext) simp

lemma seq_assoc: "rmatch fl (Seq (Seq r1 r2) r3) st = rmatch fl (Seq r1 (Seq r2 r3)) st"
  by (simp add: concat_map_concat_map rmatch_Seq_fun)

lemma seq_rep_Suc:
  "rmatch fl (Seq (Rep (Suc n) x) r) st = rmatch fl (Seq x (Seq (Rep n x) r)) st"
  by (simp add: concat_map_concat_map rmatch_Seq_fun)

lemma rejects_atom: "\<not> atomMatches (ignoreCase fl) a c \<Longrightarrow> rejects fl (Seq (Atom a) r) c"
  by (simp add: rejects_def)

lemma rejects_Eol: "\<not> isLineTerminator c \<Longrightarrow> rejects fl (Seq Eol r) c"
  by (simp add: rejects_def)

lemma rejects_star:
  "\<not> atomMatches (ignoreCase fl) a c \<Longrightarrow> rejects fl r c \<Longrightarrow> rejects fl (Seq (Rep 0 (Atom a)) r) c"
  by (simp add: rejects_def)

lemma rejects_rep:
  "\<not> atomMatches (ignoreCase fl) a c \<Longrightarrow> rejects fl (Seq (Rep (Suc n) (Atom a)) r) c"
  unfolding rejects_def seq_rep_Suc by simp

lemma rejects_assoc: "rejects fl (Seq r1 (Seq r2 r3)) c \<Longrightarrow> rejects fl (Seq (Seq r1 r2) r3) c"
  unfolding rejects_def seq_assoc by simp

lemma seq_star_all:
  assumes "\<And>c. atomMatches (ignoreCase fl) a c \<Longrightarrow> rejects fl r c"
  shows "rmatch fl (Seq (Rep 0 (Atom a)) r) (p, cs)
         = rmatch fl r (after p (takeWhile (atomMatches (ignoreCase fl) a) cs),
                        dropWhile (atomMatches (ignoreCase fl) a) cs)"
proof (induction cs arbitrary: p)
  case Nil
  show ?case by simp
next
  case (Cons c cs)
  show ?case
  proof (cases "atomMatches (ignoreCase fl) a c")
    case True
    with assms have "rmatch fl r (p, c # cs) = []"
      by (simp add: rejects_def)
    with True Cons show ?thesis
      by (simp del: rmatch.simps add: seq_star_Cons)
  next
    case False
    then show ?thesis
      by (simp del: rmatch.simps add: seq_star_Cons)
  qed
qed

lemma seq_rep_all:
  assumes "\<And>c. atomMatches (ignoreCase fl) a c \<Longrightarrow> rejects fl r c"
  shows "rmatch fl (Seq (Rep n (Atom a)) r) (p, cs)
         = (if n \<le> length (takeWhile (atomMatches (ignoreCase fl) a) cs)
            then rmatch fl r (after p (takeWhile (atomMatches (ignoreCase fl) a) cs),
                              dropWhile (atomMatches (ignoreCase fl) a) cs)
            else [])"
proof (induction n arbitrary: p cs)
  case 0
  show ?case using seq_star_all[OF assms] by simp
next
  case (Suc n)
  show ?case
  proof (cases cs)
    case Nil
    then show ?thesis unfolding seq_rep_Suc by simp
  next
    case (Cons c cs')
    have "rmatch fl (Seq (Atom a) (Seq (Rep n (Atom a)) r)) (p, c # cs')
        = (if atomMatches (ignoreCase fl) a c
           then rmatch fl (Seq (Rep n (Atom a)) r) (Some c, cs') else [])"
      by simp
    with Suc[of "Some c" cs'] Cons show ?thesis
      unfolding seq_rep_Suc by (simp del: rmatch.simps)
  qed
qed

lemma atom_blank: "atomMatches (ignoreCase flagsGM) (OneOf [0x20, 0x09]) = isBlank"
  by (rule ext) (auto simp: flagsGM_def isBlank_def)

lemma atom_dash: "atomMatches (ignoreCase flagsGM) (OneOf (str ''-*_'')) = isDash"
  by (rule ext) (auto simp: flagsGM_def isDash_def str_def)

lemma blank_not_dash: "isBlank c \<Longrightarrow> \<not> isDash c"
  by (auto simp: isBlank_def isDash_def)

lemma blank_not_lt: "isBlank c \<Longrightarrow> \<not> isLineTerminator c"
  by (auto simp: isBlank_def isLineTerminator_def)

lemma dash_not_lt: "isDash c \<Longrightarrow> \<not> isLineTerminator c"
  by (auto simp: isDash_def isLineTerminator_def)

lemma rmatch_Eol_end:
  "rmatch flagsGM (Seq Eol Eps) (q, cs) =
     (if cs = [] \<or> isLineTerminator (hd cs) then [(q, cs)] else [])"
  by (cases cs) (auto simp: flagsGM_def)

lemma rmatch_ruleRe:
  "rmatch flagsGM ruleRe (p, cs) =
     (if atStart p
         \<and> 3 \<le> length (takeWhile isDash (dropWhile isBlank cs))
         \<and> (dropWhile isBlank (dropWhile isDash (dropWhile isBlank cs)) = []
            \<or> isLineTerminator (hd (dropWhile isBlank (dropWhile isDash (dropWhile isBlank cs)))))
      then [(after (after (after p (takeWhile isBlank cs))
                     (takeWhile isDash (dropWhile isBlank cs)))
               (takeWhile isBlank (dropWhile isDash (dropWhile isBlank cs))),
             dropWhile isBlank (dropWhile isDash (dropWhile isBlank cs)))]
      else [])"
proof -
  let ?blank = "Atom (OneOf [0x20, 0x09])"
  let ?dash = "Atom (OneOf (str ''-*_''))"
  let ?r3 = "Seq Eol Eps"
  let ?r2 = "Seq (Rep 0 ?blank) ?r3"
  let ?r1 = "Seq (Rep 3 ?dash) ?r2"
  have rej3: "rejects flagsGM ?r3 c" if "isBlank c" for c
    using that by (intro rejects_Eol blank_not_lt)
  have rej2: "rejects flagsGM ?r2 c" if "isDash c" for c
    using that blank_not_dash[of c]
    by (intro rejects_star rejects_Eol dash_not_lt) (auto simp: atom_blank)
  have rej1: "rejects flagsGM ?r1 c" if "isBlank c" for c
    using that blank_not_dash[of c] unfolding numeral_3_eq_3
    by (intro rejects_rep) (auto simp: atom_dash)
  have s1: "rmatch flagsGM (Seq (Rep 0 ?blank) ?r1) (p, cs)
      = rmatch flagsGM ?r1 (after p (takeWhile isBlank cs), dropWhile isBlank cs)"
    using seq_star_all[of flagsGM "OneOf [0x20, 0x09]" ?r1 p cs] rej1
    by (simp only: atom_blank)
  have s2: "rmatch flagsGM ?r1 (q, ds)
      = (if 3 \<le> length (takeWhile isDash ds)
         then rmatch flagsGM ?r2 (after q (takeWhile isDash ds), dropWhile isDash ds) else [])"
    for q ds
    using seq_rep_all[of flagsGM "OneOf (str ''-*_'')" ?r2 3 q ds] rej2
    by (simp only: atom_dash)
  have s3: "rmatch flagsGM ?r2 (q, bs)
      = rmatch flagsGM ?r3 (after q (takeWhile isBlank bs), dropWhile isBlank bs)"
    for q bs
    using seq_star_all[of flagsGM "OneOf [0x20, 0x09]" ?r3 q bs] rej3
    by (simp only: atom_blank)
  have s0: "rmatch flagsGM ruleRe (p, cs)
      = (if atStart p then rmatch flagsGM (Seq (Rep 0 ?blank) ?r1) (p, cs) else [])"
    by (cases p) (simp_all add: ruleRe_def atStart_def flagsGM_def del: rmatch.simps(6)
        add: rmatch.simps(6)[of _ Bol])
  show ?thesis
    unfolding s0 s1 s2 s3 rmatch_Eol_end by simp
qed

lemma takeWhile_append_stop:
  "rest = [] \<or> \<not> P (hd rest) \<Longrightarrow> takeWhile P (l @ rest) = takeWhile P l"
  by (induction l) (auto, cases rest, auto)

lemma dropWhile_append_stop:
  "rest = [] \<or> \<not> P (hd rest) \<Longrightarrow> dropWhile P (l @ rest) = dropWhile P l @ rest"
  by (induction l) (auto, cases rest, auto)

lemma after_last: "l \<noteq> [] \<Longrightarrow> after p l = Some (last l)"
  by (induction l arbitrary: p) auto

lemma rmatch_ruleRe_line:
  assumes l: "\<forall>c \<in> set l. \<not> isLineTerminator c"
    and rest: "rest = [] \<or> isLineTerminator (hd rest)"
  shows "rmatch flagsGM ruleRe (p, l @ rest)
         = (if atStart p \<and> isRuleLine l then [(after p l, rest)] else [])"
proof -
  let ?l1 = "dropWhile isBlank l"
  let ?l2 = "dropWhile isDash ?l1"
  let ?l3 = "dropWhile isBlank ?l2"
  have nb: "rest = [] \<or> \<not> isBlank (hd rest)" and nd: "rest = [] \<or> \<not> isDash (hd rest)"
    using rest blank_not_lt dash_not_lt by auto
  have d1: "dropWhile isBlank (l @ rest) = ?l1 @ rest"
    and t1: "takeWhile isBlank (l @ rest) = takeWhile isBlank l"
    using nb by (simp_all add: dropWhile_append_stop takeWhile_append_stop)
  have d2: "dropWhile isDash (?l1 @ rest) = ?l2 @ rest"
    and t2: "takeWhile isDash (?l1 @ rest) = takeWhile isDash ?l1"
    using nd by (simp_all add: dropWhile_append_stop takeWhile_append_stop)
  have d3: "dropWhile isBlank (?l2 @ rest) = ?l3 @ rest"
    and t3: "takeWhile isBlank (?l2 @ rest) = takeWhile isBlank ?l2"
    using nb by (simp_all add: dropWhile_append_stop takeWhile_append_stop)
  have sub: "set ?l3 \<subseteq> set l"
    by (blast dest: set_dropWhileD)
  have stop: "(?l3 @ rest = [] \<or> isLineTerminator (hd (?l3 @ rest))) \<longleftrightarrow> ?l3 = []"
  proof (cases "?l3")
    case Nil
    show ?thesis unfolding Nil using rest by simp
  next
    case (Cons c cs)
    then have "c \<in> set l" using sub by auto
    with l show ?thesis unfolding Cons by simp
  qed
  have whole: "takeWhile isBlank l @ takeWhile isDash ?l1 @ takeWhile isBlank ?l2 = l"
    if "?l3 = []"
  proof -
    have a: "takeWhile isBlank ?l2 = ?l2"
      using that takeWhile_dropWhile_id[of isBlank ?l2] by (simp only: append_Nil2)
    have b: "takeWhile isDash ?l1 @ takeWhile isBlank ?l2 = ?l1"
      by (simp only: a takeWhile_dropWhile_id)
    show ?thesis
      by (simp only: b takeWhile_dropWhile_id)
  qed
  have q: "after (after (after p (takeWhile isBlank l)) (takeWhile isDash ?l1))
             (takeWhile isBlank ?l2) = after p l" if "?l3 = []"
    using whole[OF that] after_append
    by (metis (no_types))
  show ?thesis
    unfolding rmatch_ruleRe d1 t1 d2 t2 d3 t3 stop
    using q by (auto simp: isRuleLine_def)
qed

lemma isRuleLine_Nil [simp]: "\<not> isRuleLine []"
  by (simp add: isRuleLine_def)

lemma keepLine_idem [simp]: "keepLine (keepLine l) = keepLine l"
  by (simp add: keepLine_def)

lemma keepLine_set: "set (keepLine l) \<subseteq> set l"
  by (simp add: keepLine_def)

lemma rmatch_ruleRe_inside: "\<not> atStart q \<Longrightarrow> rmatch flagsGM ruleRe (q, cs) = []"
  by (simp add: rmatch_ruleRe)

lemma stripRules_inside_Nil: "\<not> atStart q \<Longrightarrow> stripRules q [] = []"
  by (simp add: replaceAll_Nil rmatch_ruleRe_inside)

lemma stripRules_inside_Cons:
  "\<not> atStart q \<Longrightarrow> stripRules q (c # cs) = c # stripRules (Some c) cs"
  by (rule replaceAll_skip) (rule rmatch_ruleRe_inside)

lemma stripRules_copy:
  "\<not> atStart q \<Longrightarrow> \<forall>c \<in> set l. \<not> isLineTerminator c \<Longrightarrow>
   stripRules q (l @ rest) = l @ stripRules (after q l) rest \<and> \<not> atStart (after q l)"
proof (induction l arbitrary: q)
  case Nil
  then show ?case by simp
next
  case (Cons c l)
  then have "\<not> atStart (Some c)" by (simp add: atStart_def)
  with Cons show ?case
    by (simp add: stripRules_inside_Cons)
qed

text \<open>One line of the input, read from its start, and the line terminator after it.\<close>

lemma stripRules_last_line:
  assumes "atStart p" and l: "\<forall>c \<in> set l. \<not> isLineTerminator c"
  shows "stripRules p l = keepLine l"
proof (cases "isRuleLine l")
  case True
  then have ne: "l \<noteq> []" by auto
  from True assms have m: "rmatch flagsGM ruleRe (p, l) = (after p l, []) # []"
    using rmatch_ruleRe_line[of l "[]" p] by simp
  have "\<not> atStart (after p l)"
    using ne l by (simp add: after_last atStart_def)
  then have "stripRules (after p l) [] = []"
    by (rule stripRules_inside_Nil)
  with replaceAll_hit[OF m, of "\<lambda>_. []"] ne True show ?thesis
    by (simp add: keepLine_def)
next
  case False
  then have m: "rmatch flagsGM ruleRe (p, l) = []"
    using rmatch_ruleRe_line[of l "[]" p] l by simp
  show ?thesis
  proof (cases l)
    case Nil
    with m show ?thesis by (simp add: replaceAll_Nil keepLine_def)
  next
    case (Cons c l')
    then have c: "\<not> atStart (Some c)" and l': "\<forall>c \<in> set l'. \<not> isLineTerminator c"
      using l by (simp_all add: atStart_def)
    from stripRules_copy[OF c l', of "[]"] have "stripRules (Some c) l' = l'"
      by (simp add: stripRules_inside_Nil)
    with replaceAll_skip[of flagsGM ruleRe p c l' "\<lambda>_. []"] m Cons False show ?thesis
      by (simp add: keepLine_def)
  qed
qed

lemma stripRules_line:
  assumes "atStart p" and l: "\<forall>c \<in> set l. \<not> isLineTerminator c" and t: "isLineTerminator t"
  shows "stripRules p (l @ t # rest) = keepLine l @ t # stripRules (Some t) rest"
proof (cases "isRuleLine l")
  case True
  then have ne: "l \<noteq> []" by auto
  from True assms have m: "rmatch flagsGM ruleRe (p, l @ t # rest) = (after p l, t # rest) # []"
    using rmatch_ruleRe_line[of l "t # rest" p] by simp
  have "\<not> atStart (after p l)"
    using ne l by (simp add: after_last atStart_def)
  then have "stripRules (after p l) (t # rest) = t # stripRules (Some t) rest"
    by (rule stripRules_inside_Cons)
  with replaceAll_hit[OF m, of "\<lambda>_. []"] ne True show ?thesis
    by (simp add: keepLine_def)
next
  case False
  then have m: "rmatch flagsGM ruleRe (p, l @ t # rest) = []"
    using rmatch_ruleRe_line[of l "t # rest" p] l t by simp
  show ?thesis
  proof (cases l)
    case Nil
    with m replaceAll_skip[of flagsGM ruleRe p t rest "\<lambda>_. []"] show ?thesis
      by (simp add: keepLine_def)
  next
    case (Cons c l')
    then have c: "\<not> atStart (Some c)" and l': "\<forall>c \<in> set l'. \<not> isLineTerminator c"
      using l by (simp_all add: atStart_def)
    from stripRules_copy[OF c l', of "t # rest"]
    have "stripRules (Some c) (l' @ t # rest) = l' @ t # stripRules (Some t) rest"
      by (simp add: stripRules_inside_Cons)
    with replaceAll_skip[of flagsGM ruleRe p c "l' @ t # rest" "\<lambda>_. []"] m Cons False
    show ?thesis
      by (simp add: keepLine_def)
  qed
qed

lemma line_cases:
  obtains (last) l where "cs = l" "\<forall>c \<in> set l. \<not> isLineTerminator c"
  | (line) l t rest where "cs = l @ t # rest" "\<forall>c \<in> set l. \<not> isLineTerminator c"
      "isLineTerminator t"
proof (cases "dropWhile (\<lambda>c. \<not> isLineTerminator c) cs")
  case Nil
  then have "\<forall>c \<in> set cs. \<not> isLineTerminator c"
    by (simp add: dropWhile_eq_Nil_conv)
  then show ?thesis by (rule last[OF refl])
next
  case (Cons t rest)
  have "cs = takeWhile (\<lambda>c. \<not> isLineTerminator c) cs @ t # rest"
    using takeWhile_dropWhile_id[of "\<lambda>c. \<not> isLineTerminator c" cs] Cons by simp
  moreover have "\<forall>c \<in> set (takeWhile (\<lambda>c. \<not> isLineTerminator c) cs). \<not> isLineTerminator c"
    by (auto dest: set_takeWhileD)
  moreover have "isLineTerminator t"
    using hd_dropWhile[of "\<lambda>c. \<not> isLineTerminator c" cs] Cons by simp
  ultimately show ?thesis by (rule line)
qed

lemma atStart_None [simp]: "atStart None"
  by (simp add: atStart_def)

lemma atStart_terminator: "isLineTerminator t \<Longrightarrow> atStart (Some t)"
  by (simp add: atStart_def)

lemma stripRules_idem:
  "atStart p \<Longrightarrow> atStart p' \<Longrightarrow> stripRules p' (stripRules p cs) = stripRules p cs"
proof (induction cs arbitrary: p p' rule: length_induct)
  case (1 cs)
  show ?case
  proof (cases cs rule: line_cases)
    case (last l)
    then have k: "\<forall>c \<in> set (keepLine l). \<not> isLineTerminator c"
      using keepLine_set[of l] by auto
    from last "1.prems" have "stripRules p cs = keepLine l"
      by (simp add: stripRules_last_line)
    moreover from k "1.prems" have "stripRules p' (keepLine l) = keepLine (keepLine l)"
      by (simp add: stripRules_last_line)
    ultimately show ?thesis by simp
  next
    case (line l t rest)
    then have k: "\<forall>c \<in> set (keepLine l). \<not> isLineTerminator c"
      using keepLine_set[of l] by auto
    have t: "atStart (Some t)" using line by (simp add: atStart_terminator)
    from line have "length rest < length cs" by simp
    with 1 t have ih: "stripRules (Some t) (stripRules (Some t) rest) = stripRules (Some t) rest"
      by blast
    from line "1.prems" have "stripRules p cs = keepLine l @ t # stripRules (Some t) rest"
      by (simp add: stripRules_line)
    moreover from k line "1.prems"
    have "stripRules p' (keepLine l @ t # stripRules (Some t) rest)
        = keepLine (keepLine l) @ t # stripRules (Some t) (stripRules (Some t) rest)"
      by (simp add: stripRules_line)
    ultimately show ?thesis using ih by simp
  qed
qed

lemma stripRules_terminators:
  "atStart p \<Longrightarrow> filter isLineTerminator (stripRules p cs) = filter isLineTerminator cs"
proof (induction cs arbitrary: p rule: length_induct)
  case (1 cs)
  show ?case
  proof (cases cs rule: line_cases)
    case (last l)
    then have k: "\<forall>c \<in> set (keepLine l). \<not> isLineTerminator c"
      using keepLine_set[of l] by auto
    from last "1.prems" have "stripRules p cs = keepLine l"
      by (simp add: stripRules_last_line)
    with k last show ?thesis by simp
  next
    case (line l t rest)
    then have k: "\<forall>c \<in> set (keepLine l). \<not> isLineTerminator c"
      using keepLine_set[of l] by auto
    have t: "atStart (Some t)" using line by (simp add: atStart_terminator)
    from line have "length rest < length cs" by simp
    with 1 t have ih: "filter isLineTerminator (stripRules (Some t) rest)
        = filter isLineTerminator rest"
      by blast
    from line "1.prems" have "stripRules p cs = keepLine l @ t # stripRules (Some t) rest"
      by (simp add: stripRules_line)
    with k line ih show ?thesis by simp
  qed
qed

section \<open>Splitting without a marker\<close>

lemma splitLoop_none:
  "rexec fl r p cs = None \<Longrightarrow> splitLoop fl r seg p cs = [seg @ cs]"
proof (induction cs arbitrary: seg p)
  case Nil
  then show ?case by simp
next
  case (Cons c cs)
  then have "rmatch fl r (p, c # cs) = []" "rexec fl r (Some c) cs = None"
    by (auto split: list.splits)
  with Cons.IH[of "Some c" "seg @ [c]"] show ?case by simp
qed

lemma split_none: "rexec fl r None cs = None \<Longrightarrow> split fl r cs = [cs]"
proof (cases cs)
  case Nil
  assume "rexec fl r None cs = None"
  with Nil have "rmatch fl r (None, []) = []"
    by (auto split: list.splits)
  with Nil show ?thesis by (simp add: split_def)
next
  case (Cons c cs')
  assume "rexec fl r None cs = None"
  from splitLoop_none[OF this, of "[]"] Cons show ?thesis
    by (simp add: split_def)
qed

lemma stripped_filter:
  "stripped page = replaceAll flagsG nbspRe (\<lambda>_. []) None (filter (\<lambda>c. \<not> isSpace c) page)"
  by (simp add: stripped_def spaces_filter)

lemma stripped_trim: "stripped (trim page) = stripped page"
  by (simp add: stripped_filter trim_filter)

lemma splitIntoPages_one:
  "split flagsGI pageBreakRe s = [s] \<Longrightarrow>
   splitIntoPages s = (if stripped s = [] then [] else [trim s])"
  by (simp add: splitIntoPages_def stripped_trim)

lemma canonicalize_lt: "canonicalize ic c = canonicalize ic 0x3C \<longleftrightarrow> c = 0x3C"
  by (auto simp: canonicalize_def diff_eq_eq)

lemma pageBreakRe_rejects: "c \<noteq> 0x3C \<Longrightarrow> rejects flagsGI pageBreakRe c"
  unfolding pageBreakRe_def str_def
  by (simp del: rmatch.simps, intro rejects_assoc rejects_atom)
    (simp add: canonicalize_lt flagsGI_def)

lemma pageBreakRe_Nil: "rmatch flagsGI pageBreakRe (p, []) = []"
  by (simp add: pageBreakRe_def str_def)

lemma rexec_no_lt: "0x3C \<notin> set cs \<Longrightarrow> rexec flagsGI pageBreakRe p cs = None"
proof (induction cs arbitrary: p)
  case Nil
  then show ?case by (simp add: pageBreakRe_Nil)
next
  case (Cons c cs)
  then have "rmatch flagsGI pageBreakRe (p, c # cs) = []"
    using pageBreakRe_rejects[of c] by (simp add: rejects_def)
  with Cons show ?case by simp
qed

section \<open>Splitting at a marker\<close>

lemma seq_atom_Cons:
  "rmatch fl (Seq (Atom a) r) (p, c # cs) =
     (if atomMatches (ignoreCase fl) a c then rmatch fl r (Some c, cs) else [])"
  by simp

lemma seq_atom_Nil: "rmatch fl (Seq (Atom a) r) (p, []) = []"
  by simp

lemma seq_Eps: "rmatch fl (Seq Eps r) st = rmatch fl r st"
  by simp

lemma atomMatches_Lit_same [simp]: "atomMatches ic (Lit x) x"
  by simp

lemma seq_lits_same:
  "rmatch fl (Seq (lits xs) r) (p, xs @ cs) = rmatch fl r (after p xs, cs)"
proof (induction xs arbitrary: p)
  case Nil
  show ?case by simp
next
  case (Cons x xs)
  have "rmatch fl (Seq (lits (x # xs)) r) (p, (x # xs) @ cs)
      = rmatch fl (Seq (Atom (Lit x)) (Seq (lits xs) r)) (p, x # xs @ cs)"
    by (simp only: lits_Cons seq_assoc append_Cons)
  also have "\<dots> = rmatch fl (Seq (lits xs) r) (Some x, xs @ cs)"
    by (simp only: seq_atom_Cons atomMatches_Lit_same if_True)
  finally show ?case using Cons by simp
qed

lemma rejects_lits:
  "\<not> atomMatches (ignoreCase fl) (Lit x) c \<Longrightarrow> rejects fl (Seq (lits (x # xs)) r) c"
  by (simp only: lits_Cons) (intro rejects_assoc rejects_atom)

lemma space_not_printable: "isSpace c \<Longrightarrow> \<not> (0x21 \<le> c \<and> c \<le> 0x7E)"
  by (auto simp: isSpace_def isWhiteSpace_def isLineTerminator_def word_le_nat_alt)

lemma canonicalize_space: "isSpace c \<Longrightarrow> canonicalize ic c = c"
  using space_not_printable[of c] by (auto simp: canonicalize_def word_le_nat_alt)

declare rmatch.simps [simp del]

lemma canonicalize_printable:
  "0x21 \<le> x \<Longrightarrow> x \<le> 0x7E \<Longrightarrow> 0x21 \<le> canonicalize ic x \<and> canonicalize ic x \<le> 0x7E"
  by (auto simp: canonicalize_def word_le_nat_alt unat_sub)

lemma space_not_lit:
  "isSpace c \<Longrightarrow> 0x21 \<le> x \<Longrightarrow> x \<le> 0x7E \<Longrightarrow> \<not> atomMatches ic (Lit x) c"
  using canonicalize_printable[of x ic] space_not_printable[of c]
  by (auto simp: canonicalize_space)

lemma space_ws: "isSpace c \<Longrightarrow> atomMatches ic WhiteSp c"
  by (simp add: canonicalize_space)

lemma space_not_in:
  "isSpace c \<Longrightarrow> \<forall>x \<in> set xs. 0x21 \<le> x \<and> x \<le> 0x7E \<Longrightarrow> atomMatches ic (NoneOf xs) c"
  using canonicalize_printable[of _ ic] space_not_printable[of c]
  by (auto simp: canonicalize_space)

lemma rejects_str:
  "\<not> atomMatches (ignoreCase fl) (Lit (of_char x)) c \<Longrightarrow>
   rejects fl (Seq (lits (str (x # xs))) r) c"
  unfolding str_def list.map by (rule rejects_lits)

lemma hd_append_in: "xs \<noteq> [] \<Longrightarrow> \<exists>c cs. xs @ ys = c # cs \<and> c \<in> set xs"
  by (cases xs) auto

lemma marker_match:
  assumes q1: "isQuote q1" and q2: "isQuote q2"
    and w: "\<forall>c \<in> set w. isSpace c" and d: "\<forall>c \<in> set d. isFill c"
  shows "rmatch flagsGI pageBreakRe (p, markerText q1 w d q2 @ post) = [(Some 0x3E, post)]"
proof -
  let ?ws = "Atom WhiteSp"
  let ?ngt = "Atom (NoneOf (str ''>''))"
  let ?nq = "Atom (NoneOf [0x27, 0x22])"
  let ?q = "Atom (OneOf [0x27, 0x22])"
  let ?T12 = "Seq (lits (str ''></div>'')) Eps"
  let ?T11 = "Seq (Rep 0 ?ngt) ?T12"
  let ?T10 = "Seq ?q ?T11"
  let ?T9 = "Seq (Rep 0 ?nq) ?T10"
  let ?T8 = "Seq (lits (str ''always'')) ?T9"
  let ?T7 = "Seq (Rep 0 ?ws) ?T8"
  let ?T6 = "Seq (lits (str ''page-break-after:'')) ?T7"
  let ?T5 = "Seq (Rep 0 ?nq) ?T6"
  let ?T4 = "Seq ?q ?T5"
  let ?T3 = "Seq (lits (str ''style='')) ?T4"
  let ?T2 = "Seq (Rep 0 ?ngt) ?T3"
  let ?T1 = "Seq (Rep 1 ?ws) ?T2"
  let ?s12 = "str ''></div>'' @ post"
  let ?s10 = "q2 # ?s12"
  let ?s9 = "d @ ?s10"
  let ?s8 = "str ''always'' @ ?s9"
  let ?s7 = "w @ ?s8"
  let ?s6 = "str ''page-break-after:'' @ ?s7"
  let ?s4 = "q1 # ?s6"
  let ?s3 = "str ''style='' @ ?s4"
  let ?s1 = "0x20 # ?s3"
  have ic: "ignoreCase flagsGI = True"
    by (simp add: flagsGI_def)
  have sp: "atomMatches True WhiteSp c" "atomMatches True (NoneOf (str ''>'')) c"
    "atomMatches True (NoneOf [0x27, 0x22]) c" "\<not> atomMatches True (OneOf [0x27, 0x22]) c"
    "\<not> atomMatches True (Lit 0x73) c" "\<not> atomMatches True (Lit 0x70) c"
    "\<not> atomMatches True (Lit 0x61) c" "\<not> atomMatches True (Lit 0x74) c"
    if "isSpace c" for c
    using that space_not_in[of c "str ''>''" True] space_not_in[of c "[0x27, 0x22]" True]
      space_not_in[of c "[0x27, 0x22]" True]
      space_not_lit[of c "0x73" True] space_not_lit[of c "0x70" True]
      space_not_lit[of c "0x61" True] space_not_lit[of c "0x74" True]
    by (simp_all add: canonicalize_space str_def)
  have fi: "atomMatches True (NoneOf (str ''>'')) c"
    "atomMatches True (NoneOf [0x27, 0x22]) c" "\<not> atomMatches True (OneOf [0x27, 0x22]) c"
    "\<not> atomMatches True (Lit 0x73) c" "\<not> atomMatches True (Lit 0x70) c"
    "\<not> atomMatches True (Lit 0x74) c"
    if "isFill c" for c
    using that sp[of c] by (auto simp: isFill_def canonicalize_def str_def)
  have qu: "atomMatches True (NoneOf (str ''>'')) c"
    "\<not> atomMatches True (NoneOf [0x27, 0x22]) c" "atomMatches True (OneOf [0x27, 0x22]) c"
    "\<not> atomMatches True (Lit 0x73) c" "\<not> atomMatches True (Lit 0x70) c"
    "\<not> atomMatches True (Lit 0x74) c"
    if "isQuote c" for c
    using that by (auto simp: isQuote_def canonicalize_def str_def)
  have e12: "rmatch flagsGI ?T12 (p, ?s12) = [(Some 0x3E, post)]" for p
    by (simp only: seq_lits_same rmatch.simps(1)) (simp add: str_def)
  have gt: "\<not> atomMatches True (NoneOf (str ''>'')) 0x3E"
    by (simp add: str_def)
  have e11: "rmatch flagsGI ?T11 (p, ?s12) = [(Some 0x3E, post)]" for p
  proof -
    have "rmatch flagsGI ?T11 (p, ?s12) = rmatch flagsGI ?T12 (p, ?s12)"
      by (rule seq_star_stop) (simp add: ic str_def)
    then show ?thesis by (simp only: e12)
  qed
  have e10: "rmatch flagsGI ?T10 (p, ?s10) = [(Some 0x3E, post)]" for p
    using qu(3)[OF q2] by (simp only: seq_atom_Cons ic if_True e11)
  have e9: "rmatch flagsGI ?T9 (p, ?s9) = [(Some 0x3E, post)]" for p
  proof -
    have "\<forall>c \<in> set d. atomMatches (ignoreCase flagsGI) (NoneOf [0x27, 0x22]) c
        \<and> rejects flagsGI ?T10 c"
      using d fi by (auto simp only: ic intro!: rejects_atom)
    then have "rmatch flagsGI ?T9 (p, ?s9) = rmatch flagsGI ?T9 (after p d, ?s10)"
      by (rule seq_star_run)
    also have "\<dots> = rmatch flagsGI ?T10 (after p d, ?s10)"
      by (rule seq_star_stop) (simp add: ic qu(2)[OF q2] del: atomMatches.simps)
    finally show ?thesis by (simp only: e10)
  qed
  have e8: "rmatch flagsGI ?T8 (p, ?s8) = [(Some 0x3E, post)]" for p
    by (simp only: seq_lits_same e9)
  have e7: "rmatch flagsGI ?T7 (p, ?s7) = [(Some 0x3E, post)]" for p
  proof -
    have "\<forall>c \<in> set w. atomMatches (ignoreCase flagsGI) WhiteSp c \<and> rejects flagsGI ?T8 c"
      using w sp by (auto simp only: ic intro!: rejects_str) simp
    then have "rmatch flagsGI ?T7 (p, ?s7) = rmatch flagsGI ?T7 (after p w, ?s8)"
      by (rule seq_star_run)
    also have "\<dots> = rmatch flagsGI ?T8 (after p w, ?s8)"
      by (rule seq_star_stop) (simp add: ic str_def isSpace_def isWhiteSpace_def isLineTerminator_def canonicalize_def)
    finally show ?thesis by (simp only: e8)
  qed
  have e6: "rmatch flagsGI ?T6 (p, ?s6) = [(Some 0x3E, post)]" for p
    by (simp only: seq_lits_same e7)
  have rej6: "rejects flagsGI ?T6 c" if "\<not> atomMatches True (Lit 0x70) c" for c
    by (rule rejects_str) (simp add: ic that del: atomMatches.simps)
  have e5: "rmatch flagsGI ?T5 (p, ?s6) = [(Some 0x3E, post)]" for p
  proof -
    let ?run = "str ''age-break-after:'' @ w @ str ''always'' @ d"
    have split: "?s6 = 0x70 # ?run @ ?s10"
      by (simp add: str_def)
    have "\<forall>c \<in> set ?run. atomMatches (ignoreCase flagsGI) (NoneOf [0x27, 0x22]) c
        \<and> rejects flagsGI ?T6 c"
    proof
      fix c assume "c \<in> set ?run"
      then consider "c \<in> set (str ''age-break-after:always'')" | "c \<in> set w" | "c \<in> set d"
        by (auto simp: str_def)
      then have "atomMatches True (NoneOf [0x27, 0x22]) c \<and> \<not> atomMatches True (Lit 0x70) c"
      proof cases
        case 1
        then show ?thesis by (auto simp: str_def canonicalize_def)
      next
        case 2
        with w sp show ?thesis by blast
      next
        case 3
        with d fi show ?thesis by blast
      qed
      then show "atomMatches (ignoreCase flagsGI) (NoneOf [0x27, 0x22]) c \<and> rejects flagsGI ?T6 c"
        using rej6[of c] unfolding ic by blast
    qed
    then have "rmatch flagsGI ?T5 (Some 0x70, ?run @ ?s10)
        = rmatch flagsGI ?T5 (after (Some 0x70) ?run, ?s10)"
      by (rule seq_star_run)
    also have "\<dots> = rmatch flagsGI ?T6 (after (Some 0x70) ?run, ?s10)"
      by (rule seq_star_stop) (simp add: ic qu(2)[OF q2] del: atomMatches.simps)
    also have "\<dots> = []"
      using rej6[OF qu(5)[OF q2]] by (simp only: rejects_def)
    finally have greedy: "rmatch flagsGI ?T5 (Some 0x70, ?run @ ?s10) = []" .
    have "rmatch flagsGI ?T5 (p, ?s6) = rmatch flagsGI ?T6 (p, ?s6)"
      unfolding split by (subst seq_star_Cons) (simp only: greedy if_cancel append_Nil)
    then show ?thesis by (simp only: e6)
  qed
  have e4: "rmatch flagsGI ?T4 (p, ?s4) = [(Some 0x3E, post)]" for p
    using qu(3)[OF q1] by (simp only: seq_atom_Cons ic if_True e5)
  have e3: "rmatch flagsGI ?T3 (p, ?s3) = [(Some 0x3E, post)]" for p
    by (simp only: seq_lits_same e4)
  have rej3: "rejects flagsGI ?T3 c" if "\<not> atomMatches True (Lit 0x73) c" for c
    by (rule rejects_str) (simp add: ic that del: atomMatches.simps)
  have e2: "rmatch flagsGI ?T2 (p, ?s3) = [(Some 0x3E, post)]" for p
  proof -
    let ?run1 = "str ''tyle='' @ q1 # str ''page-break-after:'' @ w @ str ''alway''"
    let ?run2 = "d @ [q2]"
    have split: "?s3 = 0x73 # ?run1 @ 0x73 # ?run2 @ ?s12"
      by (simp add: str_def)
    have run1: "\<forall>c \<in> set ?run1. atomMatches (ignoreCase flagsGI) (NoneOf (str ''>'')) c
        \<and> rejects flagsGI ?T3 c"
    proof
      fix c assume "c \<in> set ?run1"
      then consider "c \<in> set (str ''tyle=page-break-after:alway'')" | "c = q1" | "c \<in> set w"
        by (auto simp: str_def)
      then have "atomMatches True (NoneOf (str ''>'')) c \<and> \<not> atomMatches True (Lit 0x73) c"
      proof cases
        case 1
        then show ?thesis by (auto simp: str_def canonicalize_def)
      next
        case 2
        with q1 qu show ?thesis by blast
      next
        case 3
        with w sp show ?thesis by blast
      qed
      then show "atomMatches (ignoreCase flagsGI) (NoneOf (str ''>'')) c \<and> rejects flagsGI ?T3 c"
        using rej3[of c] unfolding ic by blast
    qed
    have facts2: "atomMatches True (NoneOf (str ''>'')) c \<and> \<not> atomMatches True (Lit 0x73) c
        \<and> \<not> atomMatches True (Lit 0x74) c" if "c \<in> set ?run2" for c
    proof -
      from that consider "c \<in> set d" | "c = q2" by auto
      then show ?thesis
      proof cases
        case 1
        with d fi show ?thesis by blast
      next
        case 2
        with q2 qu show ?thesis by blast
      qed
    qed
    have run2: "\<forall>c \<in> set ?run2. atomMatches (ignoreCase flagsGI) (NoneOf (str ''>'')) c
        \<and> rejects flagsGI ?T3 c"
      using facts2 rej3 unfolding ic by blast
    have mid: "rmatch flagsGI ?T3 (p', 0x73 # ?run2 @ ?s12) = []" for p'
    proof -
      have st: "str ''style='' = 0x73 # str ''tyle=''"
        by (simp add: str_def)
      obtain c cs where c: "?run2 @ ?s12 = c # cs" "c \<in> set ?run2"
        using hd_append_in[of ?run2 ?s12] by auto
      have "rejects flagsGI (Seq (lits (str ''tyle='')) ?T4) c"
        by (rule rejects_str) (simp add: ic facts2[OF c(2)] del: atomMatches.simps)
      then have "rmatch flagsGI (Seq (lits (str ''tyle='')) ?T4) (Some 0x73, ?run2 @ ?s12) = []"
        unfolding c(1) by (simp only: rejects_def)
      then show ?thesis
        unfolding st lits_Cons seq_assoc by (simp only: seq_atom_Cons if_cancel split: if_splits)
    qed
    have "rmatch flagsGI ?T2 (Some 0x73, ?run1 @ 0x73 # ?run2 @ ?s12)
        = rmatch flagsGI ?T2 (after (Some 0x73) ?run1, 0x73 # ?run2 @ ?s12)"
      using run1 by (rule seq_star_run)
    also have "\<dots> = rmatch flagsGI ?T2 (Some 0x73, ?run2 @ ?s12)"
    proof -
      have "atomMatches True (NoneOf (str ''>'')) 0x73"
        by (simp add: str_def canonicalize_def)
      then show ?thesis
        by (subst seq_star_Cons) (simp only: mid ic if_True append_Nil2)
    qed
    also have "\<dots> = rmatch flagsGI ?T2 (after (Some 0x73) ?run2, ?s12)"
      using run2 by (rule seq_star_run)
    also have "\<dots> = rmatch flagsGI ?T3 (after (Some 0x73) ?run2, ?s12)"
      by (rule seq_star_stop) (simp add: ic str_def)
    also have "\<dots> = []"
    proof -
      have "rejects flagsGI ?T3 0x3E"
        by (rule rej3) (simp add: canonicalize_def)
      then show ?thesis
        by (simp add: rejects_def str_def)
    qed
    finally have greedy: "rmatch flagsGI ?T2 (Some 0x73, ?run1 @ 0x73 # ?run2 @ ?s12) = []" .
    have "rmatch flagsGI ?T2 (p, ?s3) = rmatch flagsGI ?T3 (p, ?s3)"
      unfolding split by (subst seq_star_Cons) (simp only: greedy if_cancel append_Nil)
    then show ?thesis by (simp only: e3)
  qed
  have e1: "rmatch flagsGI ?T1 (p, ?s1) = [(Some 0x3E, post)]" for p
  proof -
    have "rmatch flagsGI ?T1 (p, ?s1)
        = rmatch flagsGI (Seq ?ws (Seq (Rep 0 ?ws) ?T2)) (p, ?s1)"
      unfolding One_nat_def by (rule seq_rep_Suc)
    also have "\<dots> = rmatch flagsGI (Seq (Rep 0 ?ws) ?T2) (Some 0x20, ?s3)"
      by (subst seq_atom_Cons)
        (simp add: ic isSpace_def isWhiteSpace_def canonicalize_def)
    also have "\<dots> = rmatch flagsGI ?T2 (Some 0x20, ?s3)"
      by (rule seq_star_stop)
        (simp add: ic str_def isSpace_def isWhiteSpace_def isLineTerminator_def canonicalize_def)
    finally show ?thesis by (simp only: e2)
  qed
  have re: "pageBreakRe = Seq (lits (str ''<div'')) ?T1"
    by (simp add: pageBreakRe_def)
  have inp: "markerText q1 w d q2 @ post = str ''<div'' @ ?s1"
    by (simp add: markerText_def str_def)
  show ?thesis
    unfolding re inp by (simp only: seq_lits_same e1)
qed

lemma str_Cons: "str (x # xs) = of_char x # str xs"
  by (simp add: str_def)

lemma seq_lits_prev:
  "rmatch fl (Seq (lits (x # xs)) r) (p, cs) = rmatch fl (Seq (lits (x # xs)) r) (p', cs)"
  by (cases cs) (simp_all only: lits_Cons seq_assoc seq_atom_Cons seq_atom_Nil)

lemma pageBreakRe_prev:
  "rmatch flagsGI pageBreakRe (p, cs) = rmatch flagsGI pageBreakRe (p', cs)"
  unfolding pageBreakRe_def seqs_Cons str_Cons by (rule seq_lits_prev)

lemma splitLoop_prev:
  "splitLoop flagsGI pageBreakRe seg p cs = splitLoop flagsGI pageBreakRe seg p' cs"
  by (cases cs) (simp_all add: pageBreakRe_prev[of p _ p'])

lemma split_loop: "split flagsGI pageBreakRe cs = splitLoop flagsGI pageBreakRe [] None cs"
  by (cases cs) (simp_all add: split_def pageBreakRe_Nil)

lemma seq_lits_consumes:
  assumes "e \<in> set (rmatch fl (Seq (lits (x # xs)) r) (p, cs))"
  shows "length (snd e) < length cs"
proof (cases cs)
  case Nil
  with assms show ?thesis
    by (simp only: lits_Cons seq_assoc seq_atom_Nil) simp
next
  case (Cons c cs')
  with assms have "e \<in> set (rmatch fl (Seq (lits xs) r) (Some c, cs'))"
    by (simp only: lits_Cons seq_assoc seq_atom_Cons split: if_splits) simp
  from rmatch_length[OF this] Cons show ?thesis by simp
qed

lemma pageBreakRe_consumes:
  "e \<in> set (rmatch flagsGI pageBreakRe (p, cs)) \<Longrightarrow> length (snd e) < length cs"
  unfolding pageBreakRe_def seqs_Cons str_Cons by (rule seq_lits_consumes)

lemma splitLoop_marker:
  assumes "matchesMarker m rest" and "0x3C \<notin> set pre"
  shows "splitLoop flagsGI pageBreakRe seg p (pre @ m @ rest)
         = (seg @ pre) # splitLoop flagsGI pageBreakRe [] None rest"
  using assms(2)
proof (induction pre arbitrary: seg p)
  case Nil
  from assms(1) obtain q es where "rmatch flagsGI pageBreakRe (None, m @ rest) = (q, rest) # es"
    by (auto simp: matchesMarker_def split: list.splits)
  then have hit: "rmatch flagsGI pageBreakRe (p, m @ rest) = (q, rest) # es"
    using pageBreakRe_prev[of p "m @ rest" None] by simp
  then have "length rest < length (m @ rest)"
    using pageBreakRe_consumes[of "(q, rest)" p "m @ rest"] by simp
  then obtain c cs where c: "m @ rest = c # cs" "length rest < length (c # cs)"
    by (cases "m @ rest") auto
  have "splitLoop flagsGI pageBreakRe seg p (c # cs)
      = seg # splitLoop flagsGI pageBreakRe [] q rest"
    using hit c by simp
  then show ?case
    using c(1) splitLoop_prev[of "[]" q rest None] by simp
next
  case (Cons c pre)
  then have "rmatch flagsGI pageBreakRe (p, c # pre @ m @ rest) = []"
    using pageBreakRe_rejects[of c] by (simp add: rejects_def)
  with Cons show ?case by simp
qed

lemma split_marker:
  assumes "matchesMarker m rest" and "0x3C \<notin> set pre"
  shows "split flagsGI pageBreakRe (pre @ m @ rest) = pre # split flagsGI pageBreakRe rest"
  using splitLoop_marker[OF assms, of "[]" None] by (simp add: split_loop)

lemma split_plain: "0x3C \<notin> set pre \<Longrightarrow> split flagsGI pageBreakRe pre = [pre]"
  by (simp add: rexec_no_lt split_none)

lemma splitIntoPages_marker:
  assumes "matchesMarker m rest" and "0x3C \<notin> set pre"
  shows "splitIntoPages (pre @ m @ rest) = splitIntoPages pre @ splitIntoPages rest"
  using split_marker[OF assms] split_plain[OF assms(2)]
  by (simp add: splitIntoPages_def)

lemma markerText_matches:
  assumes "markerOk q1 w d q2"
  shows "matchesMarker (markerText q1 w d q2) rest"
proof -
  from assms have "rmatch flagsGI pageBreakRe (None, markerText q1 w d q2 @ rest)
      = [(Some 0x3E, rest)]"
    by (intro marker_match) (simp_all add: markerOk_def list_all_iff)
  then show ?thesis
    by (simp add: matchesMarker_def)
qed

lemma nbsp_gap:
  "onlySpaceAndNbsp g \<Longrightarrow>
   0x3C \<notin> set g \<and> replaceAll flagsG nbspRe (\<lambda>_. []) p (filter (\<lambda>c. \<not> isSpace c) g) = []"
proof (induction g arbitrary: p rule: onlySpaceAndNbsp.induct)
  case 1
  show ?case
    by (simp add: replaceAll_Nil nbspRe_def str_def seq_atom_Nil)
next
  case (2 c cs)
  show ?case
  proof (cases "isSpace c")
    case True
    with 2 have "0x3C \<notin> set cs
        \<and> replaceAll flagsG nbspRe (\<lambda>_. []) p (filter (\<lambda>c. \<not> isSpace c) cs) = []"
      by simp
    moreover from True have "c \<noteq> 0x3C"
      by (auto simp: isSpace_def isWhiteSpace_def isLineTerminator_def)
    ultimately show ?thesis using True by simp
  next
    case False
    with "2.prems" have pre: "prefix (str ''&nbsp;'') (c # cs)"
      and rest: "onlySpaceAndNbsp (drop 6 (c # cs))"
      by simp_all
    from pre obtain r where r: "c # cs = str ''&nbsp;'' @ r"
      by (auto simp: prefix_def)
    then have dr: "drop 6 (c # cs) = r"
      by (simp add: str_def)
    let ?r' = "filter (\<lambda>c. \<not> isSpace c) r"
    have ih: "0x3C \<notin> set r
        \<and> replaceAll flagsG nbspRe (\<lambda>_. []) (Some 0x3B) ?r' = []"
      using "2.IH"(2)[OF False rest, of "Some 0x3B"] dr by simp
    have f: "filter (\<lambda>c. \<not> isSpace c) (c # cs) = str ''&nbsp;'' @ ?r'"
      unfolding r
      by (simp add: str_def isSpace_def isWhiteSpace_def isLineTerminator_def)
    have m: "rmatch flagsG nbspRe (p, str ''&nbsp;'' @ ?r') = (Some 0x3B, ?r') # []"
      by (simp add: nbspRe_def rmatch_lits flagsG_def) (simp add: str_def)
    have "replaceAll flagsG nbspRe (\<lambda>_. []) p (str ''&nbsp;'' @ ?r')
        = replaceAll flagsG nbspRe (\<lambda>_. []) (Some 0x3B) ?r'"
      using replaceAll_hit[OF m, of "\<lambda>_. []"] by (simp add: str_def)
    with ih f have "replaceAll flagsG nbspRe (\<lambda>_. []) p (filter (\<lambda>c. \<not> isSpace c) (c # cs)) = []"
      by simp
    moreover have "0x3C \<notin> set (c # cs)"
      unfolding r using ih by (simp add: str_def)
    ultimately show ?thesis by simp
  qed
qed

lemma splitIntoPages_gap: "onlySpaceAndNbsp g \<Longrightarrow> splitIntoPages g = []"
  using nbsp_gap[of g None] splitIntoPages_one[OF split_plain, of g]
  by (simp add: stripped_filter)

section \<open>Markers the pattern recognises\<close>

text \<open>
  A marker of the \<open>markerText\<close> family after a text without \<open><\<close> splits the input there
  and is dropped.
\<close>

lemma splitIntoPages_markerText:
  "markerOk q1 w d q2 \<Longrightarrow> 0x3C \<notin> set pre \<Longrightarrow>
   splitIntoPages (pre @ markerText q1 w d q2 @ post) = splitIntoPages pre @ splitIntoPages post"
proof -
  assume m: "markerOk q1 w d q2" and pre: "0x3C \<notin> set pre"
  have "matchesMarker (markerText q1 w d q2) post"
    using m by (rule markerText_matches)
  then have "split flagsGI pageBreakRe (pre @ markerText q1 w d q2 @ post)
      = pre # split flagsGI pageBreakRe post"
    using pre by (rule split_marker)
  moreover have "split flagsGI pageBreakRe pre = [pre]"
    using pre by (rule split_plain)
  ultimately show ?thesis
    by (simp add: splitIntoPages_def)
qed

text \<open>
  Matched markers add no page: not at the very start, not at the very end, and not for a
  gap of white space and \<open>&nbsp;\<close> between two of them.
\<close>

lemma splitIntoPages_matched_markers:
  "matchesMarker m post \<Longrightarrow> matchesMarker m' [] \<Longrightarrow> matchesMarker m'' (g @ m @ post) \<Longrightarrow>
   0x3C \<notin> set pre \<Longrightarrow> onlySpaceAndNbsp g \<Longrightarrow>
   splitIntoPages [] = []
   \<and> splitIntoPages (str ''   '' @ [0x0A, 0x09] @ str ''  '') = []
   \<and> splitIntoPages (m @ post) = splitIntoPages post
   \<and> splitIntoPages (pre @ m') = splitIntoPages pre
   \<and> splitIntoPages (pre @ m'' @ g @ m @ post) = splitIntoPages pre @ splitIntoPages post"
proof -
  assume m: "matchesMarker m post" and m': "matchesMarker m' []"
    and m'': "matchesMarker m'' (g @ m @ post)"
    and pre: "0x3C \<notin> set pre" and g: "onlySpaceAndNbsp g"
  have e: "splitIntoPages [] = []"
    by code_simp
  have ws: "splitIntoPages (str ''   '' @ [0x0A, 0x09] @ str ''  '') = []"
    by code_simp
  have first: "splitIntoPages (m @ post) = splitIntoPages post"
    using splitIntoPages_marker[OF m, of "[]"] e by simp
  have last: "splitIntoPages (pre @ m') = splitIntoPages pre"
    using splitIntoPages_marker[OF m' pre] e by simp
  have "0x3C \<notin> set g"
    using nbsp_gap[OF g] by simp
  then have "splitIntoPages (g @ m @ post) = splitIntoPages post"
    using splitIntoPages_marker[OF m, of g] splitIntoPages_gap[OF g] by simp
  then have "splitIntoPages (pre @ m'' @ g @ m @ post) = splitIntoPages pre @ splitIntoPages post"
    using splitIntoPages_marker[OF m'' pre] by simp
  with e ws first last show ?thesis by simp
qed

section \<open>Strings without rule characters\<close>

lemma stripRules_no_dash:
  "\<forall>c \<in> set cs. \<not> isDash c \<Longrightarrow> stripRules p cs = cs"
proof -
  assume nd: "\<forall>c \<in> set cs. \<not> isDash c"
  have none: "rmatch flagsGM ruleRe (q, xs) = []" if "\<forall>c \<in> set xs. \<not> isDash c" for q xs
  proof -
    let ?ds = "takeWhile isDash (dropWhile isBlank xs)"
    have "?ds = []"
    proof (cases ?ds)
      case Nil
      then show ?thesis .
    next
      case (Cons d ds)
      then have d: "d \<in> set ?ds" by simp
      then have "isDash d" by (rule set_takeWhileD[THEN conjunct2])
      moreover from d have "d \<in> set xs"
        by (blast dest: set_takeWhileD set_dropWhileD)
      ultimately show ?thesis using that by simp
    qed
    then show ?thesis
      by (simp only: rmatch_ruleRe) simp
  qed
  have "rexec flagsGM ruleRe q xs = None" if "\<forall>c \<in> set xs. \<not> isDash c" for q xs
    using that
  proof (induction xs arbitrary: q)
    case Nil
    then show ?case using none[of "[]" q] by simp
  next
    case (Cons x xs)
    then show ?case using none[of "x # xs" q] by simp
  qed
  then show ?thesis
    using nd by (simp add: replaceAll_none)
qed

lemma chapter_no_dash:
  "\<forall>c \<in> set cs. \<not> isDash c \<Longrightarrow> \<not> sublist (0x0A # chapterToken) cs"
proof
  assume nd: "\<forall>c \<in> set cs. \<not> isDash c" and sub: "sublist (0x0A # chapterToken) cs"
  from sub have "set (0x0A # chapterToken) \<subseteq> set cs"
    by (rule set_mono_sublist)
  moreover have "0x2A \<in> set (0x0A # chapterToken)"
    by (simp add: chapterToken_def str_def)
  ultimately have "0x2A \<in> set cs" by blast
  with nd show False by (auto simp: isDash_def)
qed

section \<open>The claims\<close>

text \<open>
  C1. Normalising is not idempotent in general: the chapter rule adds a newline before
  a newline that the token follows, each time it runs. It is idempotent on every string
  whose normal form holds no newline immediately followed by the token: normalising
  such a string a second time changes nothing.
\<close>

theorem normalizeMarkdown_idempotent_without_chapter:
  assumes "\<not> sublist (0x0A # chapterToken) (normalizeMarkdown s)"
  shows "normalizeMarkdown (normalizeMarkdown s) = normalizeMarkdown s"
proof -
  let ?s1 = "replaceAll flagsG marksRe (\<lambda>_. []) None s"
  let ?t = "stripRules None ?s1"
  have n: "normalizeMarkdown s = replaceAll flagsG chapterRe chapterRepl None ?t"
    by (simp add: normalizeMarkdown_def)
  from assms have "\<not> sublist (0x0A # chapterToken) ?t"
    unfolding n using chapter_keeps_occurrence by blast
  then have fixed: "replaceAll flagsG chapterRe chapterRepl None ?t = ?t"
    by (rule chapter_fixed)
  have "set ?t \<subseteq> {} \<union> set ?s1"
    by (rule replaceAll_set) simp
  moreover have "\<forall>c \<in> set ?s1. c \<noteq> 0xFEFF \<and> c \<noteq> 0x200B"
    by (simp only: marks_filter set_filter) blast
  ultimately have "\<forall>c \<in> set ?t. c \<noteq> 0xFEFF \<and> c \<noteq> 0x200B"
    by blast
  then have "filter (\<lambda>c. c \<noteq> 0xFEFF \<and> c \<noteq> 0x200B) ?t = ?t"
    by (simp only: filter_id_conv)
  then have marks: "replaceAll flagsG marksRe (\<lambda>_. []) None ?t = ?t"
    by (simp only: marks_filter[of _ ?t])
  have rules: "stripRules None ?t = ?t"
    by (rule stripRules_idem) simp_all
  have "normalizeMarkdown ?t = ?t"
    unfolding normalizeMarkdown_def marks rules fixed ..
  then show ?thesis
    unfolding n fixed .
qed

theorem normalizeMarkdown_idempotent_without_chapter_witness:
  "\<not> sublist (0x0A # chapterToken) (normalizeMarkdown (0xFEFF # str ''a\<newline>---\<newline>b''))
   \<and> normalizeMarkdown (normalizeMarkdown (0xFEFF # str ''a\<newline>---\<newline>b''))
       = normalizeMarkdown (0xFEFF # str ''a\<newline>---\<newline>b'')"
proof -
  have h: "\<not> sublist (0x0A # chapterToken) (normalizeMarkdown (0xFEFF # str ''a\<newline>---\<newline>b''))"
    by code_simp
  from normalizeMarkdown_idempotent_without_chapter[OF h] h show ?thesis by simp
qed

theorem normalizeMarkdown_not_idempotent:
  "normalizeMarkdown (normalizeMarkdown (str ''foo\<newline>'' @ chapterToken @ str '' 1**''))
   \<noteq> normalizeMarkdown (str ''foo\<newline>'' @ chapterToken @ str '' 1**'')"
  by code_simp

text \<open>
  C2. What the rule-stripping step does on the lines the claim names: \<open>---\<close> and \<open>____\<close>
  are removed and \<open>--- text\<close> is kept, but the mixed lines \<open>-*-\<close> and \<open>--*--\<close> are removed
  too, since the class \<open>[-*_]\<close> is repeated without asking for one and the same character.
\<close>

theorem normalizeMarkdown_rule_lines:
  "normalizeMarkdown (str ''---'') = []
   \<and> normalizeMarkdown (str ''____'') = []
   \<and> normalizeMarkdown (str ''--- text'') = str ''--- text''
   \<and> normalizeMarkdown (str ''-*-'') = []
   \<and> normalizeMarkdown (str ''--*--'') = []"
  by code_simp

text \<open>
  C3. White space before the colon is not tolerated. The pattern reads
  \<open>page-break-after:\s*always\<close>, so at a marker written \<open>page-break-after : always\<close> the text
  is not split and the marker stays in the page, while the same marker with the white
  space after the colon splits the text and is dropped.
\<close>

theorem splitIntoPages_space_before_colon:
  \<open>splitIntoPages (str ''a<div style="page-break-after : always"></div>b'')
     = [str ''a<div style="page-break-after : always"></div>b'']
   \<and> splitIntoPages (str ''a<div style="page-break-after:   always"></div>b'')
     = [str ''a'', str ''b'']\<close>
  by code_simp

text \<open>
  C4. \<open>foo\n**token 1**\<close> is normalised to \<open>foo\n\n**token 1**\<close>. The chapter rule
  leaves a string as it is exactly when no newline in it is immediately followed by the
  token; a blank line before the token does not stop it, one more newline is inserted.
\<close>

theorem chapter_rule_spacing:
  "normalizeMarkdown (str ''foo\<newline>'' @ chapterToken @ str '' 1**'')
     = str ''foo\<newline>\<newline>'' @ chapterToken @ str '' 1**''
   \<and> ((replaceAll flagsG chapterRe chapterRepl None t = t)
        = (\<not> sublist (0x0A # chapterToken) t))"
proof -
  have "normalizeMarkdown (str ''foo\<newline>'' @ chapterToken @ str '' 1**'')
      = str ''foo\<newline>\<newline>'' @ chapterToken @ str '' 1**''"
    by code_simp
  moreover have "replaceAll flagsG chapterRe chapterRepl None t \<noteq> t"
    if "sublist (0x0A # chapterToken) t"
    using chapter_length[of t None] that by auto
  ultimately show ?thesis
    using chapter_fixed[of t None] by blast
qed

theorem chapter_rule_spacing_witness:
  "sublist (0x0A # chapterToken) (str ''foo\<newline>\<newline>'' @ chapterToken @ str '' 1**'')
   \<and> replaceAll flagsG chapterRe chapterRepl None (str ''foo\<newline>\<newline>'' @ chapterToken @ str '' 1**'')
       \<noteq> str ''foo\<newline>\<newline>'' @ chapterToken @ str '' 1**''"
proof -
  have h: "sublist (0x0A # chapterToken) (str ''foo\<newline>\<newline>'' @ chapterToken @ str '' 1**'')"
    by code_simp
  with chapter_rule_spacing[of "str ''foo\<newline>\<newline>'' @ chapterToken @ str '' 1**''"]
  show ?thesis by simp
qed

theorem chapter_rule_blank_line_grows:
  "normalizeMarkdown (str ''foo\<newline>\<newline>'' @ chapterToken @ str '' 1**'')
     = str ''foo\<newline>\<newline>\<newline>'' @ chapterToken @ str '' 1**''
   \<and> replaceAll flagsG chapterRe chapterRepl None (str ''foo\<newline>\<newline>'' @ chapterToken @ str '' 1**'')
       \<noteq> str ''foo\<newline>\<newline>'' @ chapterToken @ str '' 1**''"
  by code_simp

text \<open>
  C5. The end-to-end scenario: normalising and then splitting the document with three
  page breaks gives the three pages \<open>Intro\<close>, \<open>Chapter 1 text\<close>, \<open>Chapter 2\<close>, in order.
\<close>

theorem pages_scenario:
  \<open>pages (str ''Intro\<newline><div style="page-break-after: always;"></div>\<newline>\<newline>Chapter 1 text\<newline><div style='page-break-after:always'></div>\<newline>&nbsp;\<newline><div style="page-break-after: always"></div>\<newline>Chapter 2'')
   = [str ''Intro'', str ''Chapter 1 text'', str ''Chapter 2'']\<close>
  by code_simp

theorem pages_scenario_witness:
  \<open>length (pages (str ''Intro\<newline><div style="page-break-after: always;"></div>\<newline>\<newline>Chapter 1 text\<newline><div style='page-break-after:always'></div>\<newline>&nbsp;\<newline><div style="page-break-after: always"></div>\<newline>Chapter 2'')) = 3\<close>
  by (simp add: pages_scenario)

text \<open>
  C6. The empty string and a string of white space give no page, and a marker the
  pattern recognises adds no page at the very start or the very end. A marker written
  with white space before the colon is not recognised: at the very start or the very end
  of the document it stays in the page, and two of them with only \<open>&nbsp;\<close> between come
  out as one page.
\<close>

theorem splitIntoPages_unrecognised_marker_page:
  \<open>splitIntoPages [] = []
   \<and> splitIntoPages (str ''   '' @ [0x0A, 0x09] @ str ''  '') = []
   \<and> splitIntoPages (str ''<div style="page-break-after: always"></div>Text'') = [str ''Text'']
   \<and> splitIntoPages (str ''Text<div style="page-break-after: always"></div>'') = [str ''Text'']
   \<and> splitIntoPages (str ''<div style="page-break-after : always"></div>Text'')
       = [str ''<div style="page-break-after : always"></div>Text'']
   \<and> splitIntoPages (str ''Text<div style="page-break-after : always"></div>'')
       = [str ''Text<div style="page-break-after : always"></div>'']
   \<and> splitIntoPages (str ''<div style="page-break-after : always"></div>&nbsp;<div style="page-break-after : always"></div>'')
       = [str ''<div style="page-break-after : always"></div>&nbsp;<div style="page-break-after : always"></div>'']\<close>
  by code_simp




text \<open>
  C8. For every string \<open>s\<close>, \<open>normalizeMarkdown s\<close> holds no U+FEFF and no U+200B. The
  removal step, the first \<open>replace\<close>, is the filter that drops these two and keeps every
  other code unit of \<open>s\<close> in order; \<open>normalizeMarkdown s\<close> is the other two steps run on
  that filtered string, and it is the filtered string itself when \<open>s\<close> holds none of
  \<open>-\<close>, \<open>*\<close>, \<open>_\<close>, so that the other two steps find nothing.
\<close>

theorem normalizeMarkdown_strips_marks:
  "0xFEFF \<notin> set (normalizeMarkdown s) \<and> 0x200B \<notin> set (normalizeMarkdown s)
   \<and> replaceAll flagsG marksRe (\<lambda>_. []) None s = filter (\<lambda>c. c \<noteq> 0xFEFF \<and> c \<noteq> 0x200B) s
   \<and> normalizeMarkdown s
       = replaceAll flagsG chapterRe chapterRepl None
           (replaceAll flagsGM ruleRe (\<lambda>_. []) None
             (filter (\<lambda>c. c \<noteq> 0xFEFF \<and> c \<noteq> 0x200B) s))
   \<and> ((\<forall>c \<in> set s. c \<noteq> 0x2D \<and> c \<noteq> 0x2A \<and> c \<noteq> 0x5F) \<longrightarrow>
        normalizeMarkdown s = filter (\<lambda>c. c \<noteq> 0xFEFF \<and> c \<noteq> 0x200B) s)"
proof -
  let ?keep = "\<lambda>c. c \<noteq> 0xFEFF \<and> c \<noteq> (0x200B :: cu)"
  let ?s1 = "replaceAll flagsG marksRe (\<lambda>_. []) None s"
  let ?s2 = "replaceAll flagsGM ruleRe (\<lambda>_. []) None ?s1"
  have s1: "?s1 = filter ?keep s"
    by (rule marks_filter)
  have "set ?s2 \<subseteq> {} \<union> set ?s1"
    by (rule replaceAll_set) simp
  moreover have "set (normalizeMarkdown s) \<subseteq> {0x0A} \<union> set ?s2"
    unfolding normalizeMarkdown_def by (rule replaceAll_set) (rule chapterRepl_set)
  ultimately have "set (normalizeMarkdown s) \<subseteq> {0x0A} \<union> set ?s1"
    by blast
  then have "set (normalizeMarkdown s) \<subseteq> {0x0A} \<union> {c. ?keep c}"
    unfolding s1 by auto
  then have absent: "0xFEFF \<notin> set (normalizeMarkdown s)" "0x200B \<notin> set (normalizeMarkdown s)"
    by auto
  have steps: "normalizeMarkdown s
      = replaceAll flagsG chapterRe chapterRepl None
          (replaceAll flagsGM ruleRe (\<lambda>_. []) None (filter ?keep s))"
    unfolding normalizeMarkdown_def s1 ..
  have plain: "normalizeMarkdown s = filter ?keep s"
    if "\<forall>c \<in> set s. c \<noteq> 0x2D \<and> c \<noteq> 0x2A \<and> c \<noteq> 0x5F"
  proof -
    from that have nd: "\<forall>c \<in> set (filter ?keep s). \<not> isDash c"
      by (auto simp: isDash_def)
    have "stripRules None (filter ?keep s) = filter ?keep s"
      using nd by (rule stripRules_no_dash)
    moreover have "replaceAll flagsG chapterRe chapterRepl None (filter ?keep s) = filter ?keep s"
      using chapter_no_dash[OF nd] by (rule chapter_fixed)
    ultimately show ?thesis
      unfolding steps by simp
  qed
  from s1 absent steps plain show ?thesis by blast
qed

theorem normalizeMarkdown_strips_marks_witness:
  "normalizeMarkdown (0xFEFF # str ''a'' @ [0x200B] @ str ''b'') = str ''ab''
   \<and> 0xFEFF \<notin> set (normalizeMarkdown (0xFEFF # str ''a'' @ [0x200B] @ str ''b''))
   \<and> 0x200B \<notin> set (normalizeMarkdown (0xFEFF # str ''a'' @ [0x200B] @ str ''b''))
   \<and> replaceAll flagsG marksRe (\<lambda>_. []) None (0xFEFF # str ''a'' @ [0x200B] @ str ''b'') = str ''ab''"
proof -
  let ?x = "0xFEFF # str ''a'' @ [0x200B] @ str ''b''"
  note t = normalizeMarkdown_strips_marks[of ?x]
  have plain: "\<forall>c \<in> set ?x. c \<noteq> 0x2D \<and> c \<noteq> 0x2A \<and> c \<noteq> 0x5F"
    by (simp add: str_def)
  have f: "filter (\<lambda>c. c \<noteq> 0xFEFF \<and> c \<noteq> 0x200B) ?x = str ''ab''"
    by (simp add: str_def)
  from t plain have "normalizeMarkdown ?x = filter (\<lambda>c. c \<noteq> 0xFEFF \<and> c \<noteq> 0x200B) ?x"
    by blast
  then have n: "normalizeMarkdown ?x = str ''ab''"
    by (simp only: f)
  from t have a: "0xFEFF \<notin> set (normalizeMarkdown ?x)" "0x200B \<notin> set (normalizeMarkdown ?x)"
    by blast+
  from t have "replaceAll flagsG marksRe (\<lambda>_. []) None ?x
      = filter (\<lambda>c. c \<noteq> 0xFEFF \<and> c \<noteq> 0x200B) ?x"
    by blast
  then have r: "replaceAll flagsG marksRe (\<lambda>_. []) None ?x = str ''ab''"
    by (simp only: f)
  from n a r show ?thesis by blast
qed

text \<open>
  C9. The filter removes white space first and \<open>&nbsp;\<close> second. So a segment whose code
  units other than white space spell \<open>&nbsp;\<close>, such as \<open>& nbsp;\<close> or \<open>&nb sp;\<close>, is
  stripped to nothing and gives no page.
\<close>

theorem splitIntoPages_spaced_nbsp:
  assumes "filter (\<lambda>c. \<not> isSpace c) g = str ''&nbsp;''"
  shows "stripped g = [] \<and> splitIntoPages g = []"
proof -
  have "replaceAll flagsG nbspRe (\<lambda>_. []) None (str ''&nbsp;'') = []"
    by code_simp
  with assms have s: "stripped g = []"
    by (simp add: stripped_filter)
  have "0x3C \<notin> set (filter (\<lambda>c. \<not> isSpace c) g)"
    unfolding assms by (simp add: str_def)
  moreover have "\<not> isSpace 0x3C"
    by (simp add: isSpace_def isWhiteSpace_def isLineTerminator_def)
  ultimately have "0x3C \<notin> set g" by auto
  then have "split flagsGI pageBreakRe g = [g]"
    by (simp add: rexec_no_lt split_none)
  from splitIntoPages_one[OF this] s show ?thesis by simp
qed

theorem splitIntoPages_spaced_nbsp_witness:
  "filter (\<lambda>c. \<not> isSpace c) (str ''&nb sp;'') = str ''&nbsp;''
   \<and> stripped (str ''&nb sp;'') = [] \<and> splitIntoPages (str ''&nb sp;'') = []"
proof -
  have h: "filter (\<lambda>c. \<not> isSpace c) (str ''&nb sp;'') = str ''&nbsp;''"
    by code_simp
  from splitIntoPages_spaced_nbsp[OF h] h show ?thesis by simp
qed

text \<open>
  C10. Removing a rule line removes the line's content only: the line terminators around
  it stay, so \<open>a\n---\nb\<close> becomes \<open>a\n\nb\<close> and not \<open>a\nb\<close>.
\<close>

theorem normalizeMarkdown_rule_residue:
  "normalizeMarkdown (str ''a\<newline>---\<newline>b'') = str ''a\<newline>\<newline>b''
   \<and> normalizeMarkdown (str ''a\<newline>---\<newline>b'') \<noteq> str ''a\<newline>b''
   \<and> filter isLineTerminator (replaceAll flagsGM ruleRe (\<lambda>_. []) None s)
       = filter isLineTerminator s"
proof -
  have "normalizeMarkdown (str ''a\<newline>---\<newline>b'') = str ''a\<newline>\<newline>b''"
    by code_simp
  moreover have "normalizeMarkdown (str ''a\<newline>---\<newline>b'') \<noteq> str ''a\<newline>b''"
    by code_simp
  moreover have "filter isLineTerminator (stripRules None s) = filter isLineTerminator s"
    by (rule stripRules_terminators) simp
  ultimately show ?thesis by simp
qed

theorem normalizeMarkdown_rule_residue_witness:
  "filter isLineTerminator (replaceAll flagsGM ruleRe (\<lambda>_. []) None (str ''a\<newline>---\<newline>b''))
   = [0x0A, 0x0A]"
  using normalizeMarkdown_rule_residue[of "str ''a\<newline>---\<newline>b''"]
  by (simp add: str_def isLineTerminator_def)

end
